theory Spec2Isabelle
  imports Complex_Main "HOL-Library.AList" "HOL-Library.Multiset"
begin

section \<open>The gene cascade simulator of \<^verbatim>\<open>src/gene_cascade.py\<close>\<close>

text \<open>
  The program has two functions: \<^verbatim>\<open>get_total_influence\<close>, a depth-bounded recursive
  enumeration of weighted walks over an igraph graph, and \<^verbatim>\<open>compute_gene_effect\<close>, which
  builds the graph from an edge list and a dictionary of baseline levels and calls the
  first function once per target gene.

  Conventions of the embedding:
  \<^item> Python's \<^verbatim>\<open>float\<close> is modelled by \<^typ>\<open>real\<close>: sums and products are exact, there
    is no rounding, no infinity and no NaN.
  \<^item> Python's \<^verbatim>\<open>int\<close> depths are \<^typ>\<open>int\<close>; igraph vertex and edge ids are \<^typ>\<open>nat\<close>.
  \<^item> A Python \<^verbatim>\<open>dict\<close> is an association list in insertion order, read with
    \<^const>\<open>map_of\<close> and written with \<^const>\<open>AList.update\<close> (which overwrites in place or
    appends, as a dictionary assignment does).
  \<^item> Exceptions are values: every function that can raise returns \<open>error + 'a\<close>.
  \<^item> The interpreter's recursion limit is not modelled.
\<close>

subsection \<open>The part of igraph that the program uses\<close>

datatype error = ValueError | InternalError | KeyError

text \<open>
  A directed igraph graph: vertex \<open>i\<close> carries the name \<open>vs_names ! i\<close>, edge \<open>k\<close> is
  \<open>es ! k\<close>, a triple of source id, target id and the \<^verbatim>\<open>weight\<close> attribute.
\<close>

record graph =
  vs_names :: "string list"
  es :: "(nat \<times> nat \<times> real) list"

definition vcount :: "graph \<Rightarrow> nat" where
  "vcount G = length (vs_names G)"

text \<open>igraph keeps every edge between existing vertices; this is its invariant.\<close>

definition graph_ok :: "graph \<Rightarrow> bool" where
  "graph_ok G = list_all (\<lambda>(u, v, w). u < vcount G \<and> v < vcount G) (es G)"

text \<open>
  \<^verbatim>\<open>G.successors(v)\<close>: the targets of the edges leaving \<open>v\<close>, in increasing vertex id,
  one entry per edge (a neighbour reached by two parallel edges is listed twice).
  An id that is not a vertex raises.
\<close>

definition out_targets :: "graph \<Rightarrow> nat \<Rightarrow> nat list" where
  "out_targets G v = sort (map (\<lambda>(s, t, w). t) (filter (\<lambda>(s, t, w). s = v) (es G)))"

definition successors :: "graph \<Rightarrow> nat \<Rightarrow> error + nat list" where
  "successors G v = (if v < vcount G then Inr (out_targets G v) else Inl InternalError)"

text \<open>
  \<^verbatim>\<open>G.get_eid(u, v)\<close>: the id of an edge from \<open>u\<close> to \<open>v\<close>, the one of highest id
  when there are several; raises when there is none.
\<close>

fun find_eid :: "(nat \<times> nat \<times> real) list \<Rightarrow> nat \<Rightarrow> nat \<Rightarrow> nat option" where
  "find_eid [] u v = None"
| "find_eid ((s, t, w) # rest) u v =
     (case find_eid rest u v of
        Some k \<Rightarrow> Some (Suc k)
      | None \<Rightarrow> if s = u \<and> t = v then Some 0 else None)"

definition get_eid :: "graph \<Rightarrow> nat \<Rightarrow> nat \<Rightarrow> error + nat" where
  "get_eid G u v = (case find_eid (es G) u v of None \<Rightarrow> Inl InternalError | Some k \<Rightarrow> Inr k)"

text \<open>\<^verbatim>\<open>G.es[edge_id]['weight']\<close>; an id that is not an edge raises.\<close>

definition es_weight :: "graph \<Rightarrow> nat \<Rightarrow> error + real" where
  "es_weight G k =
     (if k < length (es G) then (case es G ! k of (s, t, w) \<Rightarrow> Inr w) else Inl ValueError)"

text \<open>\<^verbatim>\<open>G.vs.find(name=x).index\<close>: the id of the vertex named \<open>x\<close>; raises when absent.\<close>

fun index_of :: "string list \<Rightarrow> string \<Rightarrow> nat option" where
  "index_of [] x = None"
| "index_of (y # ys) x = (if y = x then Some 0 else map_option Suc (index_of ys x))"

definition vs_find :: "graph \<Rightarrow> string \<Rightarrow> error + nat" where
  "vs_find G x = (case index_of (vs_names G) x of None \<Rightarrow> Inl ValueError | Some i \<Rightarrow> Inr i)"

text \<open>
  \<^verbatim>\<open>Graph.DictList(vertices, edges, directed=True)\<close>: the vertices in the order given
  (their names must be unique), then the edges in the order given, each endpoint resolved
  by name; an endpoint name that is not a vertex yet becomes a new vertex.
\<close>

definition add_name :: "string \<Rightarrow> string list \<Rightarrow> string list" where
  "add_name x names = (if x \<in> set names then names else names @ [x])"

definition endpoint_names :: "(string \<times> string \<times> real) list \<Rightarrow> string list \<Rightarrow> string list" where
  "endpoint_names edge_list names =
     fold (\<lambda>(source, target, weight) acc. add_name target (add_name source acc)) edge_list names"

definition name_id :: "string list \<Rightarrow> string \<Rightarrow> nat" where
  "name_id names x = (case index_of names x of None \<Rightarrow> length names | Some i \<Rightarrow> i)"

definition DictList :: "string list \<Rightarrow> (string \<times> string \<times> real) list \<Rightarrow> error + graph" where
  "DictList names edge_list =
     (if \<not> distinct names then Inl ValueError
      else let all_names = endpoint_names edge_list names
           in Inr \<lparr>vs_names = all_names,
                   es = map (\<lambda>(source, target, weight).
                               (name_id all_names source, name_id all_names target, weight))
                            edge_list\<rparr>)"

subsection \<open>\<^verbatim>\<open>get_total_influence\<close>\<close>

text \<open>
  The \<^verbatim>\<open>for\<close> loop over the successors is a \<^const>\<open>fold\<close> whose accumulator is the
  running \<^verbatim>\<open>total_influence\<close>, or the exception that ended the loop.
\<close>

function get_total_influence ::
  "graph \<Rightarrow> nat \<Rightarrow> nat \<Rightarrow> real \<Rightarrow> int \<Rightarrow> int \<Rightarrow> error + real" where
  "get_total_influence G current_gene target_gene current_path_product max_depth current_depth =
     (if current_depth > max_depth then Inr 0
      else case successors G current_gene of
        Inl e \<Rightarrow> Inl e
      | Inr neighbors \<Rightarrow>
          fold (\<lambda>neighbor_gene acc.
                  case acc of
                    Inl e \<Rightarrow> Inl e
                  | Inr total_influence \<Rightarrow>
                      (case get_eid G current_gene neighbor_gene of
                         Inl e \<Rightarrow> Inl e
                       | Inr edge_id \<Rightarrow>
                           (case es_weight G edge_id of
                              Inl e \<Rightarrow> Inl e
                            | Inr weight \<Rightarrow>
                                (let new_path_product = current_path_product * weight;
                                     found = (if neighbor_gene = target_gene
                                              then total_influence + new_path_product
                                              else total_influence)
                                 in case get_total_influence G neighbor_gene target_gene
                                           new_path_product max_depth (current_depth + 1) of
                                      Inl e \<Rightarrow> Inl e
                                    | Inr deeper \<Rightarrow> Inr (found + deeper)))))
               neighbors (Inr 0))"
  by pat_completeness auto
termination
  by (relation "measure (\<lambda>(G, c, t, p, max_depth, current_depth).
                           nat (max_depth + 1 - current_depth))") auto

declare get_total_influence.simps [simp del]

subsection \<open>\<^verbatim>\<open>compute_gene_effect\<close>\<close>

text \<open>\<^verbatim>\<open>d.get(k, fallback)\<close>.\<close>

definition dict_get :: "(string \<times> real) list \<Rightarrow> string \<Rightarrow> real \<Rightarrow> real" where
  "dict_get d k fallback = (case map_of d k of None \<Rightarrow> fallback | Some v \<Rightarrow> v)"

text \<open>
  \<^verbatim>\<open>all_gene_names\<close>: the set of the dictionary's keys, to which the loop adds both
  endpoints of every edge. The set is kept as a list without repetitions. Python does
  not specify the order in which a set is iterated; the model iterates in insertion
  order, \<open>gene_effect_over\<close> below takes the order as an argument, and the fact
  \<open>iteration_order_irrelevant\<close> shows that every order gives the same dictionary.
\<close>

definition all_gene_names ::
  "(string \<times> string \<times> real) list \<Rightarrow> (string \<times> real) list \<Rightarrow> string list" where
  "all_gene_names edge_list initial_levels =
     fold (\<lambda>(source, target, weight) names. add_name target (add_name source names))
          edge_list (remdups (map fst initial_levels))"

text \<open>
  One round of the loop over the target genes. The accumulator is the dictionary
  \<^verbatim>\<open>new_levels\<close>, or the exception that ended the loop. Only the vertex lookup stands
  inside the \<^verbatim>\<open>try\<close>, and the handler catches \<^verbatim>\<open>ig.InternalError\<close> only.
\<close>

definition target_round ::
  "graph \<Rightarrow> (string \<times> real) list \<Rightarrow> string \<Rightarrow> nat \<Rightarrow> real \<Rightarrow> int \<Rightarrow> string \<Rightarrow>
   error + (string \<times> real) list \<Rightarrow> error + (string \<times> real) list" where
  "target_round G initial_levels source_gene source_vid initial_shock max_depth target_gene acc =
     (case acc of
        Inl e \<Rightarrow> Inl e
      | Inr new_levels \<Rightarrow>
          if target_gene = source_gene then Inr new_levels
          else (case vs_find G target_gene of
                  Inl InternalError \<Rightarrow> Inr new_levels
                | Inl e \<Rightarrow> Inl e
                | Inr target_vid \<Rightarrow>
                    (case get_total_influence G source_vid target_vid 1 max_depth 1 of
                       Inl e \<Rightarrow> Inl e
                     | Inr total_influence_factor \<Rightarrow>
                         (let initial_level_target = dict_get initial_levels target_gene 0;
                              change = initial_shock * total_influence_factor
                          in Inr (AList.update target_gene (initial_level_target + change)
                                    new_levels)))))"

text \<open>The body of the function once \<^verbatim>\<open>all_gene_names\<close> is known, in a given order.\<close>

definition gene_effect_over ::
  "string list \<Rightarrow> (string \<times> string \<times> real) list \<Rightarrow> (string \<times> real) list \<Rightarrow> string \<Rightarrow> real \<Rightarrow> int \<Rightarrow>
   error + (string \<times> real) list" where
  "gene_effect_over names edge_list initial_levels source_gene modified_level max_depth =
     (case DictList names edge_list of
        Inl e \<Rightarrow> Inl e
      | Inr G \<Rightarrow>
          (let initial_shock = modified_level - dict_get initial_levels source_gene 0;
               new_levels = AList.update source_gene modified_level initial_levels
           in case vs_find G source_gene of
                Inl e \<Rightarrow> Inl e
              | Inr source_vid \<Rightarrow>
                  fold (target_round G initial_levels source_gene source_vid initial_shock
                          max_depth)
                       names (Inr new_levels)))"

definition compute_gene_effect ::
  "(string \<times> string \<times> real) list \<Rightarrow> (string \<times> real) list \<Rightarrow> string \<Rightarrow> real \<Rightarrow> int \<Rightarrow>
   error + (string \<times> real) list" where
  "compute_gene_effect edge_list initial_levels source_gene modified_level max_depth =
     gene_effect_over (all_gene_names edge_list initial_levels)
       edge_list initial_levels source_gene modified_level max_depth"

text \<open>
  The value of \<^verbatim>\<open>total_influence_factor\<close> in the round of one target: what lines
  103 to 125 compute from the edge list, the dictionary, the two names and the depth.
  The modified level is not among its arguments.
\<close>

definition influence_factor ::
  "(string \<times> string \<times> real) list \<Rightarrow> (string \<times> real) list \<Rightarrow> string \<Rightarrow> string \<Rightarrow> int \<Rightarrow>
   error + real" where
  "influence_factor edge_list initial_levels source_gene target_gene max_depth =
     (case DictList (all_gene_names edge_list initial_levels) edge_list of
        Inl e \<Rightarrow> Inl e
      | Inr G \<Rightarrow>
          (case vs_find G source_gene of
             Inl e \<Rightarrow> Inl e
           | Inr source_vid \<Rightarrow>
               (case vs_find G target_gene of
                  Inl e \<Rightarrow> Inl e
                | Inr target_vid \<Rightarrow>
                    get_total_influence G source_vid target_vid 1 max_depth 1)))"

text \<open>The example of the script's main block.\<close>

definition EDGES :: "(string \<times> string \<times> real) list" where
  "EDGES = [(''1'', ''4'', 1), (''1'', ''5'', 6 / 10), (''1'', ''6'', 7 / 10),
            (''2'', ''4'', 1), (''3'', ''4'', 4 / 10), (''4'', ''3'', 6 / 10),
            (''4'', ''8'', 3 / 10), (''5'', ''6'', 1), (''6'', ''7'', 8 / 10)]"

definition INITIAL_LEVELS :: "(string \<times> real) list" where
  "INITIAL_LEVELS = [(''1'', 1), (''2'', 1), (''3'', 1), (''4'', 1),
                     (''5'', 1), (''6'', 1), (''7'', 1), (''8'', 1)]"

subsection \<open>Walk sums\<close>

text \<open>
  The weight the loop body reads for the step from \<open>u\<close> to its successor \<open>v\<close>, and the
  sum that one level of the recursion adds: \<open>walk_sum G t k s\<close> follows the successor
  lists for exactly \<open>k\<close> steps from \<open>s\<close> and keeps the products that end in \<open>t\<close>.
\<close>

definition step_weight :: "graph \<Rightarrow> nat \<Rightarrow> nat \<Rightarrow> real" where
  "step_weight G u v =
     (case find_eid (es G) u v of None \<Rightarrow> 0 | Some k \<Rightarrow> (case es G ! k of (s, t, w) \<Rightarrow> w))"

fun walk_sum :: "graph \<Rightarrow> nat \<Rightarrow> nat \<Rightarrow> nat \<Rightarrow> real" where
  "walk_sum G t 0 s = (if s = t then 1 else 0)"
| "walk_sum G t (Suc k) s = (\<Sum>n\<leftarrow>out_targets G s. step_weight G s n * walk_sum G t k n)"

subsection \<open>The specification's reading: adjacency matrix, matrix powers, walks\<close>

text \<open>
  The weighted adjacency matrix \<open>W\<close> of the specification: the entry at \<open>(i, j)\<close> is the
  weight of the edge from \<open>i\<close> to \<open>j\<close>, and 0 when there is none. The specification's
  graphs have at most one edge for an ordered pair of vertices.
\<close>

definition no_parallel_edges :: "graph \<Rightarrow> bool" where
  "no_parallel_edges G = distinct (map (\<lambda>(s, t, w). (s, t)) (es G))"

definition adjacency :: "graph \<Rightarrow> nat \<Rightarrow> nat \<Rightarrow> real" where
  "adjacency G i j =
     (case find (\<lambda>(s, t, w). s = i \<and> t = j) (es G) of None \<Rightarrow> 0 | Some (s, t, w) \<Rightarrow> w)"

fun mat_pow :: "nat \<Rightarrow> (nat \<Rightarrow> nat \<Rightarrow> real) \<Rightarrow> nat \<Rightarrow> nat \<Rightarrow> nat \<Rightarrow> real" where
  "mat_pow n W 0 i j = (if i = j then 1 else 0)"
| "mat_pow n W (Suc k) i j = (\<Sum>m\<leftarrow>[0..<n]. W i m * mat_pow n W k m j)"

definition matrix_power_sum :: "graph \<Rightarrow> nat \<Rightarrow> nat \<Rightarrow> nat \<Rightarrow> real" where
  "matrix_power_sum G D i j = (\<Sum>k\<leftarrow>[1..<Suc D]. mat_pow (vcount G) (adjacency G) k i j)"

text \<open>
  The directed walks with \<open>k\<close> edges that start at \<open>s\<close>, as lists of \<open>k + 1\<close> vertices
  (vertices and edges may repeat), and the product of the edge weights along a walk.
\<close>

definition has_edge :: "graph \<Rightarrow> nat \<Rightarrow> nat \<Rightarrow> bool" where
  "has_edge G u v = list_ex (\<lambda>(s, t, w). s = u \<and> t = v) (es G)"

fun walks :: "graph \<Rightarrow> nat \<Rightarrow> nat \<Rightarrow> nat list list" where
  "walks G 0 s = [[s]]"
| "walks G (Suc k) s =
     concat (map (\<lambda>v. map ((#) s) (walks G k v)) (filter (has_edge G s) [0..<vcount G]))"

fun walk_weight :: "graph \<Rightarrow> nat list \<Rightarrow> real" where
  "walk_weight G (u # v # rest) = adjacency G u v * walk_weight G (v # rest)"
| "walk_weight G rest = 1"

definition walk_total :: "graph \<Rightarrow> nat \<Rightarrow> nat \<Rightarrow> nat \<Rightarrow> real" where
  "walk_total G D s t =
     (\<Sum>k\<leftarrow>[1..<Suc D]. \<Sum>p\<leftarrow>filter (\<lambda>p. last p = t) (walks G k s). walk_weight G p)"

fun is_walk :: "graph \<Rightarrow> nat list \<Rightarrow> bool" where
  "is_walk G [] = False"
| "is_walk G [v] = (v < vcount G)"
| "is_walk G (u # v # rest) = (has_edge G u v \<and> is_walk G (v # rest))"

definition weights_nonneg :: "graph \<Rightarrow> bool" where
  "weights_nonneg G = list_all (\<lambda>(s, t, w). 0 \<le> w) (es G)"

subsection \<open>The graph and the sums behind \<^verbatim>\<open>compute_gene_effect\<close>\<close>

text \<open>
  The graph that \<open>DictList\<close> returns when the vertex names already hold every endpoint,
  and the number the recursion returns on it (a sum of walk sums; see the facts below).
\<close>

definition built :: "string list \<Rightarrow> (string \<times> string \<times> real) list \<Rightarrow> graph" where
  "built names edge_list =
     \<lparr>vs_names = names,
      es = map (\<lambda>(source, target, weight). (name_id names source, name_id names target, weight))
               edge_list\<rparr>"

definition influence_sum :: "graph \<Rightarrow> nat \<Rightarrow> nat \<Rightarrow> int \<Rightarrow> real" where
  "influence_sum G s t max_depth = (\<Sum>k = 1..nat max_depth. walk_sum G t k s)"

text \<open>
  The same walk sums read from the edge list by name, without vertex ids: the weight of
  the last edge from \<open>a\<close> to \<open>b\<close> in the list (the one \<open>get_eid\<close> finds), and the sum
  over the edges that leave \<open>s\<close>.
\<close>

definition retrieved_weight :: "(string \<times> string \<times> real) list \<Rightarrow> string \<Rightarrow> string \<Rightarrow> real" where
  "retrieved_weight edge_list a b =
     (case find (\<lambda>(s, t, w). s = a \<and> t = b) (rev edge_list) of
        None \<Rightarrow> 0
      | Some (s, t, w) \<Rightarrow> w)"

fun name_walk_sum :: "(string \<times> string \<times> real) list \<Rightarrow> string \<Rightarrow> nat \<Rightarrow> string \<Rightarrow> real" where
  "name_walk_sum edge_list t 0 s = (if s = t then 1 else 0)"
| "name_walk_sum edge_list t (Suc k) s =
     (\<Sum>(a, b, w)\<leftarrow>filter (\<lambda>(a, b, w). a = s) edge_list.
         retrieved_weight edge_list s b * name_walk_sum edge_list t k b)"

section \<open>Facts about the graph operations and the recursion\<close>

lemma find_eid_Some:
  "find_eid xs u v = Some k \<Longrightarrow> k < length xs \<and> (\<exists>w. xs ! k = (u, v, w))"
proof (induction xs arbitrary: k)
  case Nil
  then show ?case by simp
next
  case (Cons e xs)
  obtain s t w where e: "e = (s, t, w)" by (cases e)
  show ?case
  proof (cases "find_eid xs u v")
    case None
    with Cons.prems e show ?thesis by (auto split: if_splits)
  next
    case (Some j)
    with Cons.prems e have "k = Suc j" by simp
    with Cons.IH [OF Some] show ?thesis by auto
  qed
qed

lemma find_eid_None:
  "(find_eid xs u v = None) = (\<forall>w. (u, v, w) \<notin> set xs)"
proof (induction xs)
  case Nil
  show ?case by simp
next
  case (Cons e xs)
  obtain s t w where e: "e = (s, t, w)" by (cases e)
  show ?case
  proof (cases "find_eid xs u v")
    case None
    with Cons.IH show ?thesis by (auto simp: e)
  next
    case (Some j)
    with Cons.IH show ?thesis by (auto simp: e)
  qed
qed

lemma set_out_targets:
  "set (out_targets G u) = {v. \<exists>w. (u, v, w) \<in> set (es G)}"
  by (force simp: out_targets_def)

lemma out_targets_bound:
  "graph_ok G \<Longrightarrow> n \<in> set (out_targets G u) \<Longrightarrow> n < vcount G"
  by (auto simp: set_out_targets graph_ok_def list_all_iff)

lemma neighbour_weight:
  assumes "n \<in> set (out_targets G u)"
  shows "\<exists>k. get_eid G u n = Inr k \<and> es_weight G k = Inr (step_weight G u n)"
proof -
  from assms obtain w where "(u, n, w) \<in> set (es G)"
    by (auto simp: set_out_targets)
  then have "find_eid (es G) u n \<noteq> None"
    by (auto simp: find_eid_None)
  then obtain k where k: "find_eid (es G) u n = Some k" by auto
  from find_eid_Some [OF k] show ?thesis
    using k by (auto simp: get_eid_def es_weight_def step_weight_def)
qed

lemma fold_total:
  assumes "\<And>n a. n \<in> set ns \<Longrightarrow> f n (Inr a) = Inr (a + g n)"
  shows "fold f ns (Inr a) = (Inr (a + (\<Sum>n\<leftarrow>ns. g n)) :: error + real)"
  using assms by (induction ns arbitrary: a) (simp_all add: add.assoc)

lemma sum_list_sum_swap:
  "(\<Sum>n\<leftarrow>ns. \<Sum>k\<in>A. f n k) = (\<Sum>k\<in>A. \<Sum>n\<leftarrow>ns. (f n k :: real))"
  by (induction ns) (simp_all add: sum.distrib)

lemma walk_sum_shift:
  "(\<Sum>k = 1..Suc N. walk_sum G t k c) =
     (\<Sum>n\<leftarrow>out_targets G c. step_weight G c n * ((if n = t then 1 else 0) + (\<Sum>k = 1..N. walk_sum G t k n)))"
proof -
  have "(\<Sum>k = 1..Suc N. walk_sum G t k c) = (\<Sum>k = 0..N. walk_sum G t (Suc k) c)"
    using sum.shift_bounds_cl_Suc_ivl [of "\<lambda>k. walk_sum G t k c" 0 N] by simp
  also have "\<dots> = (\<Sum>n\<leftarrow>out_targets G c. \<Sum>k = 0..N. step_weight G c n * walk_sum G t k n)"
    by (simp add: sum_list_sum_swap)
  also have "\<dots> = (\<Sum>n\<leftarrow>out_targets G c. step_weight G c n * (\<Sum>k = 0..N. walk_sum G t k n))"
    by (simp add: sum_distrib_left)
  also have "\<dots> = (\<Sum>n\<leftarrow>out_targets G c. step_weight G c n * ((if n = t then 1 else 0) + (\<Sum>k = 1..N. walk_sum G t k n)))"
  proof -
    have "(\<Sum>k = 0..N. walk_sum G t k n) = (if n = t then 1 else 0) + (\<Sum>k = 1..N. walk_sum G t k n)" for n
      using sum.atLeast_Suc_atMost [of 0 N "\<lambda>k. walk_sum G t k n"] by simp
    then show ?thesis by simp
  qed
  finally show ?thesis .
qed

lemma influence_value:
  assumes "graph_ok G"
  shows "c < vcount G \<Longrightarrow> N = nat (max_depth + 1 - d) \<Longrightarrow>
     get_total_influence G c t p max_depth d = Inr (p * (\<Sum>k = 1..N. walk_sum G t k c))"
proof (induction N arbitrary: c p d)
  case 0
  then have "d > max_depth" by simp
  then show ?case by (simp add: get_total_influence.simps)
next
  case (Suc N)
  then have le: "\<not> d > max_depth" and N: "N = nat (max_depth + 1 - (d + 1))" by simp_all
  let ?g = "\<lambda>n. (if n = t then p * step_weight G c n else 0)
                + p * step_weight G c n * (\<Sum>k = 1..N. walk_sum G t k n)"
  let ?f = "\<lambda>neighbor_gene acc.
                  case acc of
                    Inl e \<Rightarrow> Inl e
                  | Inr total_influence \<Rightarrow>
                      (case get_eid G c neighbor_gene of
                         Inl e \<Rightarrow> Inl e
                       | Inr edge_id \<Rightarrow>
                           (case es_weight G edge_id of
                              Inl e \<Rightarrow> Inl e
                            | Inr weight \<Rightarrow>
                                (let new_path_product = p * weight;
                                     found = (if neighbor_gene = t
                                              then total_influence + new_path_product
                                              else total_influence)
                                 in case get_total_influence G neighbor_gene t
                                           new_path_product max_depth (d + 1) of
                                      Inl e \<Rightarrow> Inl e
                                    | Inr deeper \<Rightarrow> Inr (found + deeper))))"
  have step: "?f n (Inr a) = Inr (a + ?g n)" if n: "n \<in> set (out_targets G c)" for n a
  proof -
    from neighbour_weight [OF n] obtain k where
      k: "get_eid G c n = Inr k" "es_weight G k = Inr (step_weight G c n)" by blast
    have "n < vcount G" using assms n by (rule out_targets_bound)
    from Suc.IH [OF this N, of "p * step_weight G c n"] k show ?thesis
      by (simp add: Let_def)
  qed
  have "get_total_influence G c t p max_depth d = fold ?f (out_targets G c) (Inr 0)"
    using le Suc.prems(1) by (subst get_total_influence.simps) (simp add: successors_def)
  also have "\<dots> = Inr (0 + (\<Sum>n\<leftarrow>out_targets G c. ?g n))"
    using step by (rule fold_total)
  also have "(\<Sum>n\<leftarrow>out_targets G c. ?g n) = p * (\<Sum>k = 1..Suc N. walk_sum G t k c)"
    unfolding walk_sum_shift sum_list_const_mult [symmetric]
    by (rule arg_cong [where f = sum_list], rule map_cong) (auto simp: algebra_simps)
  finally show ?case by simp
qed

lemma fold_Inl:
  assumes "\<And>n e. f n (Inl e) = Inl e"
  shows "fold f ns (Inl e) = Inl e"
  using assms by (induction ns) simp_all

lemma fold_scaled:
  fixes f f1 :: "nat \<Rightarrow> error + real \<Rightarrow> error + real"
  assumes inl: "\<And>n e. f n (Inl e) = Inl e" "\<And>n e. f1 n (Inl e) = Inl e"
    and step: "\<And>n a. n \<in> set ns \<Longrightarrow>
       f n (Inr (p * a)) = (case f1 n (Inr a) of Inl e \<Rightarrow> Inl e | Inr v \<Rightarrow> Inr (p * v))"
  shows "fold f ns (Inr (p * a)) = (case fold f1 ns (Inr a) of Inl e \<Rightarrow> Inl e | Inr v \<Rightarrow> Inr (p * v))"
  using step
proof (induction ns arbitrary: a)
  case Nil
  show ?case by simp
next
  case (Cons n ns)
  show ?case
  proof (cases "f1 n (Inr a)")
    case (Inl e)
    with Cons.prems [of n a] show ?thesis
      by (simp add: fold_Inl [of f, OF inl(1)] fold_Inl [of f1, OF inl(2)])
  next
    case (Inr b)
    with Cons.prems [of n a] have "f n (Inr (p * a)) = Inr (p * b)" by simp
    with Inr Cons.IH [of b] Cons.prems show ?thesis by simp
  qed
qed

lemma homogeneous_aux:
  "N = nat (max_depth + 1 - d) \<Longrightarrow>
   get_total_influence G c t p max_depth d =
     (case get_total_influence G c t 1 max_depth d of Inl e \<Rightarrow> Inl e | Inr v \<Rightarrow> Inr (p * v))"
proof (induction N arbitrary: c p d)
  case 0
  then have "d > max_depth" by simp
  then show ?case by (simp add: get_total_influence.simps)
next
  case (Suc N)
  then have le: "\<not> d > max_depth" and N: "N = nat (max_depth + 1 - (d + 1))" by simp_all
  note IH = Suc.IH [OF N]
  show ?case
  proof (cases "successors G c")
    case (Inl e)
    with le show ?thesis by (simp add: get_total_influence.simps [of G c])
  next
    case (Inr ns)
    let ?f = "\<lambda>q neighbor_gene acc.
                  case acc of
                    Inl e \<Rightarrow> Inl e
                  | Inr total_influence \<Rightarrow>
                      (case get_eid G c neighbor_gene of
                         Inl e \<Rightarrow> Inl e
                       | Inr edge_id \<Rightarrow>
                           (case es_weight G edge_id of
                              Inl e \<Rightarrow> Inl e
                            | Inr weight \<Rightarrow>
                                (let new_path_product = q * weight;
                                     found = (if neighbor_gene = t
                                              then total_influence + new_path_product
                                              else total_influence)
                                 in case get_total_influence G neighbor_gene t
                                           new_path_product max_depth (d + 1) of
                                      Inl e \<Rightarrow> Inl e
                                    | Inr deeper \<Rightarrow> Inr (found + deeper))))"
    have unfold: "get_total_influence G c t q max_depth d = fold (?f q) ns (Inr 0)" for q
      using le Inr by (subst get_total_influence.simps) simp
    have step: "?f p n (Inr (p * a)) = (case ?f 1 n (Inr a) of Inl e \<Rightarrow> Inl e | Inr v \<Rightarrow> Inr (p * v))"
      for n a
    proof (cases "get_eid G c n")
      case (Inl e)
      then show ?thesis by simp
    next
      case eid: (Inr k)
      show ?thesis
      proof (cases "es_weight G k")
        case (Inl e)
        with eid show ?thesis by simp
      next
        case w: (Inr w)
        show ?thesis
        proof (cases "get_total_influence G n t 1 max_depth (d + 1)")
          case (Inl e)
          with eid w IH [of n "p * w"] IH [of n w] show ?thesis by (simp add: Let_def)
        next
          case (Inr r)
          with eid w IH [of n "p * w"] IH [of n w] show ?thesis
            by (simp add: Let_def algebra_simps)
        qed
      qed
    qed
    have "fold (?f p) ns (Inr (p * 0)) =
            (case fold (?f 1) ns (Inr 0) of Inl e \<Rightarrow> Inl e | Inr v \<Rightarrow> Inr (p * v))"
    proof (rule fold_scaled)
      show "?f p n (Inl e) = Inl e" for n e by simp
      show "?f 1 n (Inl e) = Inl e" for n e by simp
      show "?f p n (Inr (p * a)) = (case ?f 1 n (Inr a) of Inl e \<Rightarrow> Inl e | Inr v \<Rightarrow> Inr (p * v))"
        for n a by (rule step)
    qed
    then show ?thesis by (simp add: unfold)
  qed
qed


lemma step_weight_nonneg: "weights_nonneg G \<Longrightarrow> 0 \<le> step_weight G u v"
proof (cases "find_eid (es G) u v")
  case None
  then show ?thesis by (simp add: step_weight_def)
next
  case (Some k)
  assume nn: "weights_nonneg G"
  from find_eid_Some [OF Some] obtain w where k: "k < length (es G)" "es G ! k = (u, v, w)"
    by blast
  then have "(u, v, w) \<in> set (es G)" by (metis nth_mem)
  with nn have "0 \<le> w" by (auto simp: weights_nonneg_def list_all_iff)
  with Some k show ?thesis by (simp add: step_weight_def)
qed

lemma walk_sum_nonneg: "weights_nonneg G \<Longrightarrow> 0 \<le> walk_sum G t k s"
proof (induction k arbitrary: s)
  case 0
  show ?case by simp
next
  case (Suc k)
  then show ?case
    by (auto intro!: sum_list_nonneg mult_nonneg_nonneg step_weight_nonneg)
qed

lemma walk_sums_mono:
  assumes "weights_nonneg G" "M \<le> N"
  shows "(\<Sum>k = 1..M. walk_sum G t k s) \<le> (\<Sum>k = 1..N. walk_sum G t k s)"
  using assms by (intro sum_mono2) (auto simp: walk_sum_nonneg)

lemma out_targets_single:
  "out_targets \<lparr>vs_names = names, es = [(a, b, w)]\<rparr> u = (if u = a then [b] else [])"
  by (simp add: out_targets_def)

lemma single_edge_walk_sum:
  assumes "a \<noteq> b"
  shows "walk_sum \<lparr>vs_names = names, es = [(a, b, w)]\<rparr> b (Suc k) a = (if k = 0 then w else 0)"
proof (cases k)
  case 0
  then show ?thesis by (simp add: out_targets_single step_weight_def)
next
  case (Suc j)
  with assms show ?thesis by (simp add: out_targets_single step_weight_def)
qed

lemma single_edge_sum:
  assumes "a \<noteq> b"
  shows "(\<Sum>k = 1..Suc N. walk_sum \<lparr>vs_names = names, es = [(a, b, w)]\<rparr> b k a) = w"
proof -
  have "(\<Sum>k = 1..Suc N. walk_sum \<lparr>vs_names = names, es = [(a, b, w)]\<rparr> b k a)
      = (\<Sum>k = 0..N. walk_sum \<lparr>vs_names = names, es = [(a, b, w)]\<rparr> b (Suc k) a)"
    using sum.shift_bounds_cl_Suc_ivl [of "\<lambda>k. walk_sum \<lparr>vs_names = names, es = [(a, b, w)]\<rparr> b k a" 0 N]
    by simp
  also have "\<dots> = (\<Sum>k = 0..N. if k = 0 then w else 0)"
    by (simp only: single_edge_walk_sum [OF assms])
  also have "\<dots> = w" by simp
  finally show ?thesis .
qed

subsection \<open>Walk sums, matrix powers and walks\<close>

lemma adjacency_list:
  assumes "distinct (map (\<lambda>(s, t, w). (s, t)) xs)"
  shows "(case find (\<lambda>(s, t, w). s = u \<and> t = v) xs of None \<Rightarrow> 0 | Some (s, t, w) \<Rightarrow> w) =
   (case find_eid xs u v of None \<Rightarrow> (0::real) | Some k \<Rightarrow> (case xs ! k of (s, t, w) \<Rightarrow> w))"
  using assms
proof (induction xs)
  case Nil
  show ?case by simp
next
  case (Cons e xs)
  obtain s t w where e: "e = (s, t, w)" by (cases e)
  from Cons.prems have d: "distinct (map (\<lambda>(s, t, w). (s, t)) xs)" by simp
  show ?case
  proof (cases "s = u \<and> t = v")
    case True
    with Cons.prems have "\<forall>w'. (u, v, w') \<notin> set xs" by (force simp: e)
    then have "find_eid xs u v = None" by (simp add: find_eid_None)
    with True show ?thesis by (simp add: e)
  next
    case False
    show ?thesis
    proof (cases "find_eid xs u v")
      case None
      with Cons.IH [OF d] False show ?thesis by (auto simp: e)
    next
      case (Some k)
      with Cons.IH [OF d] False show ?thesis by (auto simp: e)
    qed
  qed
qed

lemma adjacency_step_weight:
  "no_parallel_edges G \<Longrightarrow> adjacency G u v = step_weight G u v"
  unfolding adjacency_def step_weight_def no_parallel_edges_def by (rule adjacency_list)

lemma has_edge_iff: "has_edge G u v = (v \<in> set (out_targets G u))"
  by (force simp: has_edge_def list_ex_iff set_out_targets)

lemma adjacency_no_edge:
  assumes "\<not> has_edge G u v"
  shows "adjacency G u v = 0"
proof -
  from assms have "\<not> (\<exists>x. x \<in> set (es G) \<and> (case x of (s, t, w) \<Rightarrow> s = u \<and> t = v))"
    unfolding has_edge_def list_ex_iff by blast
  then have "find (\<lambda>(s, t, w). s = u \<and> t = v) (es G) = None"
    unfolding find_None_iff .
  then show ?thesis by (simp add: adjacency_def)
qed

lemma distinct_out_targets:
  assumes "no_parallel_edges G"
  shows "distinct (out_targets G u)"
proof -
  let ?out = "filter (\<lambda>(s, t, w). s = u) (es G)"
  define ts where "ts = map (\<lambda>(s, t, w). t) ?out"
  have "distinct (map (\<lambda>(s, t, w). (s, t)) ?out)"
    using assms unfolding no_parallel_edges_def by (rule distinct_map_filter)
  moreover have "map (\<lambda>(s, t, w). (s, t)) ?out = map (Pair u) ts"
    unfolding ts_def by (induction "es G") auto
  ultimately have "distinct (map (Pair u) ts)" by simp
  then have "distinct ts" by (simp add: distinct_map)
  then show ?thesis by (simp add: out_targets_def ts_def)
qed

lemma row_sum:
  assumes "graph_ok G" "no_parallel_edges G"
  shows "(\<Sum>m\<leftarrow>[0..<vcount G]. adjacency G u m * f m) =
         (\<Sum>n\<leftarrow>out_targets G u. step_weight G u n * (f n :: real))"
proof -
  have sub: "set (out_targets G u) \<subseteq> {0..<vcount G}"
    using out_targets_bound [OF assms(1)] by auto
  have "(\<Sum>m\<leftarrow>[0..<vcount G]. adjacency G u m * f m) = (\<Sum>m\<in>{0..<vcount G}. adjacency G u m * f m)"
    by (simp add: sum_list_distinct_conv_sum_set)
  also have "\<dots> = (\<Sum>m\<in>set (out_targets G u). adjacency G u m * f m)"
    by (rule sum.mono_neutral_right) (use sub in \<open>auto simp: adjacency_no_edge has_edge_iff\<close>)
  also have "\<dots> = (\<Sum>n\<leftarrow>out_targets G u. adjacency G u n * f n)"
    by (simp add: sum_list_distinct_conv_sum_set distinct_out_targets [OF assms(2)])
  finally show ?thesis by (simp add: adjacency_step_weight [OF assms(2)])
qed

lemma walk_sum_mat_pow:
  assumes "graph_ok G" "no_parallel_edges G"
  shows "walk_sum G t k s = mat_pow (vcount G) (adjacency G) k s t"
proof (induction k arbitrary: s)
  case 0
  show ?case by simp
next
  case (Suc k)
  show ?case
    by (simp add: row_sum [OF assms] Suc.IH)
qed

lemma sum_list_from_one: "(\<Sum>k\<leftarrow>[1..<Suc N]. f k) = (\<Sum>k = 1..N. (f k :: real))"
proof -
  have "(\<Sum>k\<leftarrow>[1..<Suc N]. f k) = sum f (set [1..<Suc N])"
    by (rule interv_sum_list_conv_sum_set_nat)
  also have "set [1..<Suc N] = {1..N}"
    by (simp only: set_upt atLeastLessThanSuc_atLeastAtMost)
  finally show ?thesis .
qed

lemma sum_list_filter_concat:
  "(\<Sum>p\<leftarrow>filter P (concat (map g vs)). (h p :: real)) = (\<Sum>v\<leftarrow>vs. \<Sum>p\<leftarrow>filter P (g v). h p)"
  by (induction vs) simp_all

lemma walks_start: "p \<in> set (walks G k s) \<Longrightarrow> \<exists>rest. p = s # rest"
  by (cases k) auto

lemma walks_step_sum:
  "(\<Sum>p\<leftarrow>filter (\<lambda>p. last p = t) (map ((#) s) (walks G k v)). walk_weight G p) =
     adjacency G s v * (\<Sum>p\<leftarrow>filter (\<lambda>p. last p = t) (walks G k v). walk_weight G p)"
proof -
  have "(\<Sum>p\<leftarrow>filter (\<lambda>p. last p = t) (map ((#) s) ps). walk_weight G p) =
     adjacency G s v * (\<Sum>p\<leftarrow>filter (\<lambda>p. last p = t) ps. walk_weight G p)"
    if "\<And>p. p \<in> set ps \<Longrightarrow> \<exists>rest. p = v # rest" for ps
    using that
  proof (induction ps)
    case Nil
    show ?case by simp
  next
    case (Cons p ps)
    from Cons.prems [of p] obtain rest where p: "p = v # rest" by auto
    have "(\<Sum>p\<leftarrow>filter (\<lambda>p. last p = t) (map ((#) s) ps). walk_weight G p) =
     adjacency G s v * (\<Sum>p\<leftarrow>filter (\<lambda>p. last p = t) ps. walk_weight G p)"
      using Cons.prems by (intro Cons.IH) auto
    then show ?case by (simp add: p algebra_simps)
  qed
  then show ?thesis using walks_start by blast
qed

lemma walks_mat_pow:
  "(\<Sum>p\<leftarrow>filter (\<lambda>p. last p = t) (walks G k s). walk_weight G p) =
     mat_pow (vcount G) (adjacency G) k s t"
proof (induction k arbitrary: s)
  case 0
  show ?case by simp
next
  case (Suc k)
  have "(\<Sum>p\<leftarrow>filter (\<lambda>p. last p = t) (walks G (Suc k) s). walk_weight G p) =
        (\<Sum>v\<leftarrow>filter (has_edge G s) [0..<vcount G].
            \<Sum>p\<leftarrow>filter (\<lambda>p. last p = t) (map ((#) s) (walks G k v)). walk_weight G p)"
    by (simp only: walks.simps sum_list_filter_concat)
  also have "\<dots> = (\<Sum>v\<leftarrow>filter (has_edge G s) [0..<vcount G].
                      adjacency G s v * mat_pow (vcount G) (adjacency G) k v t)"
    by (simp only: walks_step_sum Suc.IH)
  also have "\<dots> = (\<Sum>v\<leftarrow>[0..<vcount G]. adjacency G s v * mat_pow (vcount G) (adjacency G) k v t)"
    by (rule sum_list_map_filter) (simp add: adjacency_no_edge)
  finally show ?case by simp
qed

lemma elem_le_sum_list:
  fixes f :: "'a \<Rightarrow> real"
  assumes "x \<in> set xs" "\<And>y. y \<in> set xs \<Longrightarrow> 0 \<le> f y"
  shows "f x \<le> (\<Sum>y\<leftarrow>xs. f y)"
  using assms
proof (induction xs)
  case Nil
  then show ?case by simp
next
  case (Cons y ys)
  have rest: "0 \<le> (\<Sum>y\<leftarrow>ys. f y)"
    using Cons.prems(2) by (intro sum_list_nonneg) auto
  show ?case
  proof (cases "x = y")
    case True
    with rest show ?thesis by simp
  next
    case False
    with Cons.prems have "x \<in> set ys" by simp
    from Cons.IH [OF this] Cons.prems(2) have "f x \<le> (\<Sum>y\<leftarrow>ys. f y)" by simp
    moreover have "0 \<le> f y" using Cons.prems(2) by simp
    ultimately show ?thesis by simp
  qed
qed

lemma walk_sum_compose:
  assumes "weights_nonneg G"
  shows "walk_sum G c j s * walk_sum G t k c \<le> walk_sum G t (j + k) s"
proof (induction j arbitrary: s)
  case 0
  show ?case by (simp add: walk_sum_nonneg [OF assms])
next
  case (Suc j)
  have "walk_sum G c (Suc j) s * walk_sum G t k c =
        (\<Sum>n\<leftarrow>out_targets G s. step_weight G s n * (walk_sum G c j n * walk_sum G t k c))"
    by (simp add: sum_list_mult_const [symmetric] mult.assoc)
  also have "\<dots> \<le> (\<Sum>n\<leftarrow>out_targets G s. step_weight G s n * walk_sum G t (j + k) n)"
    by (intro sum_list_mono mult_left_mono Suc.IH step_weight_nonneg [OF assms])
  finally show ?case by simp
qed

lemma walk_weight_le_walk_sum:
  "weights_nonneg G \<Longrightarrow> no_parallel_edges G \<Longrightarrow> is_walk G p \<Longrightarrow>
     walk_weight G p \<le> walk_sum G (last p) (length p - 1) (hd p)"
proof (induction G p rule: is_walk.induct)
  case (1 G)
  then show ?case by simp
next
  case (2 G v)
  show ?case by simp
next
  case (3 G u v rest)
  note nn = \<open>weights_nonneg G\<close> and simple = \<open>no_parallel_edges G\<close>
  from "3.prems" have e: "v \<in> set (out_targets G u)" and w: "is_walk G (v # rest)"
    by (simp_all add: has_edge_iff)
  let ?f = "\<lambda>n. step_weight G u n * walk_sum G (last (v # rest)) (length rest) n"
  have ih: "walk_weight G (v # rest) \<le> walk_sum G (last (v # rest)) (length rest) v"
    using "3.IH" [OF nn simple w] by simp
  have "walk_weight G (u # v # rest) = step_weight G u v * walk_weight G (v # rest)"
    by (simp add: adjacency_step_weight [OF simple])
  also have "\<dots> \<le> ?f v"
    using ih step_weight_nonneg [OF nn, of u v] by (rule mult_left_mono)
  also have "\<dots> \<le> (\<Sum>n\<leftarrow>out_targets G u. ?f n)"
    using e by (rule elem_le_sum_list)
      (simp add: step_weight_nonneg [OF nn] walk_sum_nonneg [OF nn])
  finally show ?case by simp
qed

lemma is_walk_hd:
  "graph_ok G \<Longrightarrow> is_walk G p \<Longrightarrow> hd p < vcount G"
proof (induction G p rule: is_walk.induct)
  case (3 G u v rest)
  then have "has_edge G u v" by simp
  then obtain w where "(u, v, w) \<in> set (es G)"
    by (auto simp: has_edge_def list_ex_iff)
  with \<open>graph_ok G\<close> show ?case by (auto simp: graph_ok_def list_all_iff)
qed simp_all

lemma cycle_power:
  assumes "weights_nonneg G" "1 \<le> walk_sum G c L c"
  shows "1 \<le> walk_sum G c (j * L) c"
proof (induction j)
  case 0
  show ?case by simp
next
  case (Suc j)
  have "1 \<le> walk_sum G c L c * walk_sum G c (j * L) c"
    using mult_mono [of 1 "walk_sum G c L c" 1 "walk_sum G c (j * L) c"] assms(2) Suc.IH
    by simp
  also have "\<dots> \<le> walk_sum G c (L + j * L) c"
    by (rule walk_sum_compose [OF assms(1)])
  finally show ?case by simp
qed

lemma through_cycle:
  assumes nn: "weights_nonneg G"
    and "x \<le> walk_sum G c a s" "0 < x" "1 \<le> walk_sum G c L c" "y \<le> walk_sum G t b c" "0 < y"
  shows "x * y \<le> walk_sum G t (a + j * L + b) s"
proof -
  have "y \<le> walk_sum G c (j * L) c * walk_sum G t b c"
    using cycle_power [OF nn assms(4), of j] assms(5,6)
    by (smt (verit) mult_le_cancel_right1)
  also have "\<dots> \<le> walk_sum G t (j * L + b) c"
    by (rule walk_sum_compose [OF nn])
  finally have "x * y \<le> walk_sum G c a s * walk_sum G t (j * L + b) c"
    using assms(2,3,6) by (intro mult_mono) (auto simp: walk_sum_nonneg [OF nn])
  also have "\<dots> \<le> walk_sum G t (a + (j * L + b)) s"
    by (rule walk_sum_compose [OF nn])
  finally show ?thesis by (simp add: add.assoc)
qed

lemma sums_grow:
  assumes nn: "weights_nonneg G" and L: "0 < L"
    and low: "\<And>j. e \<le> walk_sum G t (a + j * L + b) s"
  shows "of_nat m * e \<le> (\<Sum>k = 1..a + m * L + b. walk_sum G t k s)"
proof (induction m)
  case 0
  show ?case by (simp add: sum_nonneg walk_sum_nonneg [OF nn])
next
  case (Suc m)
  from L obtain N where N: "a + Suc m * L + b = Suc N" and le: "a + m * L + b \<le> N"
    by (cases "a + Suc m * L + b") auto
  have "of_nat (Suc m) * e = of_nat m * e + e" by (simp add: algebra_simps)
  also have "\<dots> \<le> (\<Sum>k = 1..a + m * L + b. walk_sum G t k s) + walk_sum G t (a + Suc m * L + b) s"
    using Suc.IH low [of "Suc m"] by simp
  also have "\<dots> \<le> (\<Sum>k = 1..N. walk_sum G t k s) + walk_sum G t (a + Suc m * L + b) s"
    using walk_sums_mono [OF nn le, of t s] by (rule add_right_mono)
  also have "\<dots> = (\<Sum>k = 1..N. walk_sum G t k s) + walk_sum G t (Suc N) s"
    by (simp only: N)
  also have "\<dots> = (\<Sum>k = 1..Suc N. walk_sum G t k s)"
    by (simp del: walk_sum.simps)
  finally show ?case by (simp only: N)
qed

lemma two_cycle_signs:
  "walk_sum \<lparr>vs_names = [''S'', ''A'', ''T''], es = [(0, 1, 1), (1, 0, 1), (0, 2, - 1)]\<rparr> 2 k 0 \<le> 0
   \<and> walk_sum \<lparr>vs_names = [''S'', ''A'', ''T''], es = [(0, 1, 1), (1, 0, 1), (0, 2, - 1)]\<rparr> 2 k 1 \<le> 0
   \<and> 0 \<le> walk_sum \<lparr>vs_names = [''S'', ''A'', ''T''], es = [(0, 1, 1), (1, 0, 1), (0, 2, - 1)]\<rparr> 2 k 2"
proof (induction k)
  case 0
  show ?case by simp
next
  case (Suc k)
  then show ?case by (simp add: out_targets_def step_weight_def)
qed

text \<open>
  With two parallel edges the loop visits the neighbour twice and reads the weight of the
  same edge, the one of highest id, both times: here it returns 4, not the sum 3 of the
  two weights. The specification leaves such graphs out of its data model.
\<close>

lemma parallel_edges_example:
  "get_total_influence \<lparr>vs_names = [''A'', ''B''], es = [(0, 1, 1), (0, 1, 2)]\<rparr> 0 1 1 1 1 = Inr 4"
  by code_simp

text \<open>
  With the edges S to A (1), A to S (2), A to S (0) and S to T (1), the step from A to S
  always reads the weight 0 of the later edge, so no walk through the cycle counts: the
  influence of S on T stays at 1.
\<close>

lemma parallel_edges_cycle_example:
  "get_total_influence
     \<lparr>vs_names = [''S'', ''A'', ''T''], es = [(0, 1, 1), (1, 0, 2), (1, 0, 0), (0, 2, 1)]\<rparr>
     0 2 1 5 1 = Inr 1"
  by code_simp

subsection \<open>Names, the graph built from them, and the loop over the targets\<close>

lemma set_add_name: "set (add_name x ns) = insert x (set ns)"
  by (auto simp: add_name_def)

lemma distinct_add_name: "distinct ns \<Longrightarrow> distinct (add_name x ns)"
  by (simp add: add_name_def)

lemma add_name_known: "x \<in> set ns \<Longrightarrow> add_name x ns = ns"
  by (simp add: add_name_def)

lemma set_endpoint_names:
  "set (endpoint_names edge_list ns) =
     set ns \<union> (\<lambda>(s, t, w). s) ` set edge_list \<union> (\<lambda>(s, t, w). t) ` set edge_list"
  unfolding endpoint_names_def
proof (induction edge_list arbitrary: ns)
  case Nil
  show ?case by simp
next
  case (Cons e edge_list)
  obtain s t w where e: "e = (s, t, w)" by (cases e)
  show ?case by (auto simp: e Cons.IH set_add_name)
qed

lemma distinct_endpoint_names: "distinct ns \<Longrightarrow> distinct (endpoint_names edge_list ns)"
  unfolding endpoint_names_def
proof (induction edge_list arbitrary: ns)
  case Nil
  then show ?case by simp
next
  case (Cons e edge_list)
  obtain s t w where e: "e = (s, t, w)" by (cases e)
  show ?case using Cons.prems by (simp add: e Cons.IH distinct_add_name)
qed

lemma endpoint_names_known:
  "(\<lambda>(s, t, w). s) ` set edge_list \<union> (\<lambda>(s, t, w). t) ` set edge_list \<subseteq> set ns \<Longrightarrow>
     endpoint_names edge_list ns = ns"
  unfolding endpoint_names_def
proof (induction edge_list arbitrary: ns)
  case Nil
  show ?case by simp
next
  case (Cons e edge_list)
  obtain s t w where e: "e = (s, t, w)" by (cases e)
  from Cons.prems have "s \<in> set ns" "t \<in> set ns" by (auto simp: e)
  then show ?case using Cons.prems by (simp add: e add_name_known Cons.IH)
qed

lemma all_gene_names_endpoint:
  "all_gene_names edge_list initial_levels = endpoint_names edge_list (remdups (map fst initial_levels))"
  by (simp add: all_gene_names_def endpoint_names_def)

lemma set_all_gene_names:
  "set (all_gene_names edge_list initial_levels) =
     fst ` set initial_levels \<union> (\<lambda>(s, t, w). s) ` set edge_list \<union> (\<lambda>(s, t, w). t) ` set edge_list"
  by (simp add: all_gene_names_endpoint set_endpoint_names)

lemma distinct_all_gene_names: "distinct (all_gene_names edge_list initial_levels)"
  by (simp add: all_gene_names_endpoint distinct_endpoint_names)

lemma index_of_Some: "index_of ns x = Some i \<Longrightarrow> i < length ns \<and> ns ! i = x"
proof (induction ns arbitrary: i)
  case Nil
  then show ?case by simp
next
  case (Cons y ns)
  show ?case
  proof (cases "y = x")
    case True
    with Cons.prems show ?thesis by simp
  next
    case False
    with Cons.prems obtain j where j: "index_of ns x = Some j" "i = Suc j" by auto
    with Cons.IH [OF j(1)] show ?thesis by simp
  qed
qed

lemma index_of_None: "(index_of ns x = None) = (x \<notin> set ns)"
  by (induction ns) auto

lemma name_id_bound: "x \<in> set ns \<Longrightarrow> name_id ns x < length ns"
  by (cases "index_of ns x") (auto simp: name_id_def index_of_None dest: index_of_Some)


lemma DictList_all_gene_names:
  "DictList (all_gene_names edge_list initial_levels) edge_list =
     Inr (built (all_gene_names edge_list initial_levels) edge_list)"
proof -
  have "endpoint_names edge_list (all_gene_names edge_list initial_levels) =
          all_gene_names edge_list initial_levels"
    by (rule endpoint_names_known) (simp only: set_all_gene_names, blast)
  then show ?thesis
    by (simp add: DictList_def distinct_all_gene_names built_def Let_def)
qed

lemma built_ok:
  assumes "(\<lambda>(s, t, w). s) ` set edge_list \<union> (\<lambda>(s, t, w). t) ` set edge_list \<subseteq> set names"
  shows "graph_ok (built names edge_list)"
  using assms
  by (auto simp: graph_ok_def built_def vcount_def list_all_iff intro!: name_id_bound)

lemma vs_find_built:
  "vs_find (built names edge_list) x =
     (if x \<in> set names then Inr (name_id names x) else Inl ValueError)"
proof (cases "index_of names x")
  case None
  then show ?thesis by (simp add: vs_find_def built_def index_of_None [symmetric])
next
  case (Some i)
  then have "x \<in> set names" by (metis index_of_None option.distinct(1))
  with Some show ?thesis by (simp add: vs_find_def built_def name_id_def)
qed


lemma endpoints_known:
  "(\<lambda>(s, t, w). s) ` set edge_list \<union> (\<lambda>(s, t, w). t) ` set edge_list
     \<subseteq> set (all_gene_names edge_list initial_levels)"
  by (simp only: set_all_gene_names, blast)

lemma influence_built:
  assumes "(\<lambda>(s, t, w). s) ` set edge_list \<union> (\<lambda>(s, t, w). t) ` set edge_list \<subseteq> set names"
    and "x \<in> set names"
  shows "get_total_influence (built names edge_list) (name_id names x) tv 1 max_depth 1 =
           Inr (influence_sum (built names edge_list) (name_id names x) tv max_depth)"
proof -
  have "name_id names x < vcount (built names edge_list)"
    using name_id_bound [OF assms(2)] by (simp add: vcount_def built_def)
  from influence_value [OF built_ok [OF assms(1)] this refl, of tv 1 max_depth 1]
  show ?thesis by (simp add: influence_sum_def)
qed

lemma target_round_source:
  "target_round G initial_levels source_gene sv shock max_depth source_gene (Inr al) = Inr al"
  by (simp add: target_round_def)

lemma target_round_built:
  assumes "(\<lambda>(s, t, w). s) ` set edge_list \<union> (\<lambda>(s, t, w). t) ` set edge_list \<subseteq> set names"
    and "source_gene \<in> set names" "t \<in> set names" "t \<noteq> source_gene"
  shows "target_round (built names edge_list) initial_levels source_gene
           (name_id names source_gene) shock max_depth t (Inr al) =
         Inr (AList.update t
                (dict_get initial_levels t 0
                   + shock * influence_sum (built names edge_list) (name_id names source_gene)
                               (name_id names t) max_depth) al)"
  using assms(3,4)
  by (simp add: target_round_def vs_find_built influence_built [OF assms(1,2)] Let_def)

lemma fold_rounds:
  fixes f :: "string \<Rightarrow> error + (string \<times> real) list \<Rightarrow> error + (string \<times> real) list"
  assumes "\<And>t al. t \<in> set ts \<Longrightarrow> t \<noteq> s \<Longrightarrow> f t (Inr al) = Inr (AList.update t (val t) al)"
    and "\<And>al. f s (Inr al) = Inr al"
  shows "\<exists>al'. fold f ts (Inr al) = Inr al'
           \<and> map_of al' = (\<lambda>t. if t \<in> set ts \<and> t \<noteq> s then Some (val t) else map_of al t)"
  using assms(1)
proof (induction ts arbitrary: al)
  case Nil
  show ?case by simp
next
  case (Cons t ts)
  have rest: "\<And>t' al. t' \<in> set ts \<Longrightarrow> t' \<noteq> s \<Longrightarrow> f t' (Inr al) = Inr (AList.update t' (val t') al)"
    using Cons.prems by simp
  show ?case
  proof (cases "t = s")
    case True
    from Cons.IH [OF rest, of al] obtain al' where
      "fold f ts (Inr al) = Inr al'"
      "map_of al' = (\<lambda>t. if t \<in> set ts \<and> t \<noteq> s then Some (val t) else map_of al t)"
      by blast
    with True assms(2) show ?thesis by (auto simp: fun_eq_iff)
  next
    case False
    then have step: "f t (Inr al) = Inr (AList.update t (val t) al)"
      using Cons.prems by simp
    from Cons.IH [OF rest, of "AList.update t (val t) al"] obtain al' where
      "fold f ts (Inr (AList.update t (val t) al)) = Inr al'"
      "map_of al' = (\<lambda>t'. if t' \<in> set ts \<and> t' \<noteq> s then Some (val t')
                            else map_of (AList.update t (val t) al) t')"
      by blast
    with step False show ?thesis by (auto simp: fun_eq_iff update_conv')
  qed
qed

lemma gene_effect_value:
  assumes "source_gene \<in> set (all_gene_names edge_list initial_levels)"
  shows "\<exists>new_levels.
     compute_gene_effect edge_list initial_levels source_gene modified_level max_depth = Inr new_levels
     \<and> map_of new_levels =
         (\<lambda>t. if t = source_gene then Some modified_level
              else if t \<in> set (all_gene_names edge_list initial_levels)
              then Some (dict_get initial_levels t 0
                         + (modified_level - dict_get initial_levels source_gene 0)
                           * influence_sum (built (all_gene_names edge_list initial_levels) edge_list)
                               (name_id (all_gene_names edge_list initial_levels) source_gene)
                               (name_id (all_gene_names edge_list initial_levels) t) max_depth)
              else None)"
proof -
  define names where "names = all_gene_names edge_list initial_levels"
  define G where "G = built names edge_list"
  define shock where "shock = modified_level - dict_get initial_levels source_gene 0"
  define val where "val t = dict_get initial_levels t 0
      + shock * influence_sum G (name_id names source_gene) (name_id names t) max_depth" for t
  have known: "(\<lambda>(s, t, w). s) ` set edge_list \<union> (\<lambda>(s, t, w). t) ` set edge_list \<subseteq> set names"
    unfolding names_def by (rule endpoints_known)
  have src: "source_gene \<in> set names" using assms by (simp add: names_def)
  let ?f = "target_round G initial_levels source_gene (name_id names source_gene) shock max_depth"
  have "\<exists>al'. fold ?f names (Inr (AList.update source_gene modified_level initial_levels)) = Inr al'
          \<and> map_of al' = (\<lambda>t. if t \<in> set names \<and> t \<noteq> source_gene then Some (val t)
                               else map_of (AList.update source_gene modified_level initial_levels) t)"
  proof (rule fold_rounds)
    show "?f t (Inr al) = Inr (AList.update t (val t) al)"
      if "t \<in> set names" "t \<noteq> source_gene" for t al
      unfolding G_def val_def by (rule target_round_built [OF known src that])
    show "?f source_gene (Inr al) = Inr al" for al
      by (rule target_round_source)
  qed
  then obtain al' where al':
    "fold ?f names (Inr (AList.update source_gene modified_level initial_levels)) = Inr al'"
    "map_of al' = (\<lambda>t. if t \<in> set names \<and> t \<noteq> source_gene then Some (val t)
                         else map_of (AList.update source_gene modified_level initial_levels) t)"
    by blast
  have keys: "map_of initial_levels t = None" if "t \<notin> set names" for t
  proof -
    from that have "t \<notin> fst ` set initial_levels"
      by (simp add: names_def set_all_gene_names)
    then show ?thesis by (simp add: map_of_eq_None_iff)
  qed
  have "compute_gene_effect edge_list initial_levels source_gene modified_level max_depth = Inr al'"
  proof -
    have dl: "DictList names edge_list = Inr G"
      unfolding names_def G_def by (rule DictList_all_gene_names)
    have vf: "vs_find G source_gene = Inr (name_id names source_gene)"
      using src by (simp add: G_def vs_find_built)
    show ?thesis
      unfolding compute_gene_effect_def gene_effect_over_def names_def [symmetric]
      by (simp add: dl vf Let_def shock_def [symmetric] al'(1))
  qed
  moreover have "map_of al' =
         (\<lambda>t. if t = source_gene then Some modified_level
              else if t \<in> set names then Some (val t) else None)"
    by (auto simp: al'(2) fun_eq_iff update_conv' keys)
  ultimately show ?thesis
    unfolding val_def shock_def G_def names_def by blast
qed

lemma gene_effect_unknown_source:
  assumes "source_gene \<notin> set (all_gene_names edge_list initial_levels)"
  shows "compute_gene_effect edge_list initial_levels source_gene modified_level max_depth
           = Inl ValueError"
  using assms
  by (simp add: compute_gene_effect_def gene_effect_over_def DictList_all_gene_names
      vs_find_built Let_def)

lemma influence_factor_value:
  assumes "source_gene \<in> set (all_gene_names edge_list initial_levels)"
    and "target_gene \<in> set (all_gene_names edge_list initial_levels)"
  shows "influence_factor edge_list initial_levels source_gene target_gene max_depth =
     Inr (influence_sum (built (all_gene_names edge_list initial_levels) edge_list)
            (name_id (all_gene_names edge_list initial_levels) source_gene)
            (name_id (all_gene_names edge_list initial_levels) target_gene) max_depth)"
  using assms
  by (simp add: influence_factor_def DictList_all_gene_names vs_find_built
      influence_built [OF endpoints_known])

subsection \<open>The order in which the set of names is iterated\<close>

text \<open>
  Vertex ids, and with them the order of every successor list, follow the order in
  which Python iterates the set \<^verbatim>\<open>all_gene_names\<close>. Over the reals the returned
  dictionary does not depend on that order: the walk sums of the built graph are the
  walk sums of the edge list by name.
\<close>

lemma name_id_inj:
  assumes "x \<in> set ns" "y \<in> set ns"
  shows "(name_id ns x = name_id ns y) = (x = y)"
proof -
  from assms obtain i j where ij: "index_of ns x = Some i" "index_of ns y = Some j"
    by (metis index_of_None not_Some_eq)
  have ids: "name_id ns x = i" "name_id ns y = j"
    using ij by (simp_all add: name_id_def)
  have at: "ns ! i = x" "ns ! j = y"
    using index_of_Some [OF ij(1)] index_of_Some [OF ij(2)] by blast+
  show ?thesis
  proof
    assume "name_id ns x = name_id ns y"
    then have "i = j" by (simp only: ids)
    with at show "x = y" by blast
  next
    assume "x = y"
    then show "name_id ns x = name_id ns y" by (rule arg_cong)
  qed
qed

lemma sum_list_sort:
  fixes f :: "nat \<Rightarrow> real"
  shows "(\<Sum>n\<leftarrow>sort xs. f n) = (\<Sum>n\<leftarrow>xs. f n)"
proof -
  have "mset (map f (sort xs)) = mset (map f xs)" by simp
  then have "sum_mset (mset (map f (sort xs))) = sum_mset (mset (map f xs))" by (rule arg_cong)
  then show ?thesis by (simp only: sum_mset_sum_list)
qed

lemma find_mapped:
  "find P (map f xs) = map_option f (find (\<lambda>x. P (f x)) xs)"
  by (induction xs) simp_all

lemma DictList_known:
  assumes "distinct names"
    and "(\<lambda>(s, t, w). s) ` set edge_list \<union> (\<lambda>(s, t, w). t) ` set edge_list \<subseteq> set names"
  shows "DictList names edge_list = Inr (built names edge_list)"
  using assms(1) endpoint_names_known [OF assms(2)]
  by (simp add: DictList_def built_def Let_def)

lemma built_out_edges:
  assumes known: "(\<lambda>(s, t, w). s) ` set edge_list \<union> (\<lambda>(s, t, w). t) ` set edge_list \<subseteq> set names"
    and s: "s \<in> set names"
  shows "filter (\<lambda>(u, v, w). u = name_id names s) (es (built names edge_list)) =
         map (\<lambda>(a, b, w). (name_id names a, name_id names b, w))
             (filter (\<lambda>(a, b, w). a = s) edge_list)"
proof -
  have gen: "filter (\<lambda>(u, v, w). u = name_id names s)
          (map (\<lambda>(a, b, w). (name_id names a, name_id names b, w)) xs) =
        map (\<lambda>(a, b, w). (name_id names a, name_id names b, w))
          (filter (\<lambda>(a, b, w). a = s) xs)"
    if "\<And>a b w. (a, b, w) \<in> set xs \<Longrightarrow> a \<in> set names" for xs
    using that
  proof (induction xs)
    case Nil
    show ?case by simp
  next
    case (Cons e xs)
    obtain a b w where e: "e = (a, b, w)" by (cases e)
    from Cons.prems [of a b w] have a: "a \<in> set names" by (simp add: e)
    have "a' \<in> set names" if "(a', b', w') \<in> set xs" for a' b' w'
      using Cons.prems [of a' b' w'] that by simp
    from Cons.IH [OF this] show ?case
      by (simp add: e name_id_inj [OF a s])
  qed
  have "a \<in> set names" if "(a, b, w) \<in> set edge_list" for a b w
    using known that by auto
  from gen [of edge_list, OF this] show ?thesis by (simp add: built_def)
qed

lemma built_out_targets_sum:
  assumes known: "(\<lambda>(s, t, w). s) ` set edge_list \<union> (\<lambda>(s, t, w). t) ` set edge_list \<subseteq> set names"
    and s: "s \<in> set names"
  shows "(\<Sum>n\<leftarrow>out_targets (built names edge_list) (name_id names s). f n) =
         (\<Sum>(a, b, w)\<leftarrow>filter (\<lambda>(a, b, w). a = s) edge_list. (f (name_id names b) :: real))"
proof -
  have "(\<Sum>n\<leftarrow>out_targets (built names edge_list) (name_id names s). f n) =
        (\<Sum>n\<leftarrow>map (\<lambda>(u, v, w). v)
              (filter (\<lambda>(u, v, w). u = name_id names s) (es (built names edge_list))). f n)"
    unfolding out_targets_def by (rule sum_list_sort)
  also have "\<dots> = (\<Sum>(a, b, w)\<leftarrow>filter (\<lambda>(a, b, w). a = s) edge_list. f (name_id names b))"
    unfolding built_out_edges [OF known s]
    by (simp add: comp_def case_prod_unfold)
  finally show ?thesis .
qed

lemma find_snoc:
  "find P (ys @ [e]) = (case find P ys of None \<Rightarrow> (if P e then Some e else None) | Some y \<Rightarrow> Some y)"
  by (induction ys) simp_all

lemma find_eid_last:
  "(case find_eid xs u v of None \<Rightarrow> (0::real) | Some k \<Rightarrow> (case xs ! k of (s, t, w) \<Rightarrow> w)) =
   (case find (\<lambda>(s, t, w). s = u \<and> t = v) (rev xs) of None \<Rightarrow> 0 | Some (s, t, w) \<Rightarrow> w)"
proof (induction xs)
  case Nil
  show ?case by simp
next
  case (Cons e xs)
  obtain s t w where e: "e = (s, t, w)" by (cases e)
  show ?case
  proof (cases "find_eid xs u v")
    case None
    then have "\<not> (\<exists>x. x \<in> set (rev xs) \<and> (case x of (s, t, w) \<Rightarrow> s = u \<and> t = v))"
      by (auto simp: find_eid_None)
    then have "find (\<lambda>(s, t, w). s = u \<and> t = v) (rev xs) = None"
      unfolding find_None_iff .
    with None show ?thesis by (simp add: e find_snoc)
  next
    case (Some k)
    from find_eid_Some [OF Some] obtain w' where "k < length xs" "xs ! k = (u, v, w')" by blast
    then have "(u, v, w') \<in> set (rev xs)" by (metis nth_mem set_rev)
    then have "find (\<lambda>(s, t, w). s = u \<and> t = v) (rev xs) \<noteq> None"
      by (auto simp: find_None_iff)
    then obtain y where y: "find (\<lambda>(s, t, w). s = u \<and> t = v) (rev xs) = Some y" by blast
    with Some Cons.IH show ?thesis by (simp add: e find_snoc)
  qed
qed

lemma built_step_weight:
  assumes known: "(\<lambda>(s, t, w). s) ` set edge_list \<union> (\<lambda>(s, t, w). t) ` set edge_list \<subseteq> set names"
    and a: "a \<in> set names" and b: "b \<in> set names"
  shows "step_weight (built names edge_list) (name_id names a) (name_id names b) =
           retrieved_weight edge_list a b"
proof -
  let ?phi = "\<lambda>(s, t, w). (name_id names s, name_id names t, w :: real)"
  have same: "(case ?phi x of (u, v, w) \<Rightarrow> u = name_id names a \<and> v = name_id names b) =
              (case x of (s, t, w) \<Rightarrow> s = a \<and> t = b)"
    if "x \<in> set (rev edge_list)" for x
  proof -
    obtain s t w where x: "x = (s, t, w)" by (cases x)
    from that known have "s \<in> set names" "t \<in> set names" by (auto simp: x)
    then show ?thesis by (simp add: x name_id_inj a b)
  qed
  have "find (\<lambda>(u, v, w). u = name_id names a \<and> v = name_id names b) (rev (map ?phi edge_list)) =
        find (\<lambda>(u, v, w). u = name_id names a \<and> v = name_id names b) (map ?phi (rev edge_list))"
    by (simp only: rev_map)
  also have "\<dots> =
        map_option ?phi (find (\<lambda>x. case ?phi x of (u, v, w) \<Rightarrow> u = name_id names a \<and> v = name_id names b)
                           (rev edge_list))"
    by (rule find_mapped)
  also have "\<dots> = map_option ?phi (find (\<lambda>(s, t, w). s = a \<and> t = b) (rev edge_list))"
    using same by (intro arg_cong [where f = "map_option ?phi"] find_cong refl)
  finally have found: "find (\<lambda>(u, v, w). u = name_id names a \<and> v = name_id names b)
                         (rev (map ?phi edge_list)) =
                       map_option ?phi (find (\<lambda>(s, t, w). s = a \<and> t = b) (rev edge_list))" .
  have "step_weight (built names edge_list) (name_id names a) (name_id names b) =
          (case find (\<lambda>(u, v, w). u = name_id names a \<and> v = name_id names b)
                  (rev (map ?phi edge_list)) of None \<Rightarrow> 0 | Some (s, t, w) \<Rightarrow> w)"
    unfolding step_weight_def built_def by (simp only: graph.simps find_eid_last)
  also have "\<dots> = retrieved_weight edge_list a b"
    unfolding found by (simp add: retrieved_weight_def split: option.splits)
  finally show ?thesis .
qed

lemma built_walk_sum:
  assumes known: "(\<lambda>(s, t, w). s) ` set edge_list \<union> (\<lambda>(s, t, w). t) ` set edge_list \<subseteq> set names"
    and t: "t \<in> set names"
  shows "s \<in> set names \<Longrightarrow>
     walk_sum (built names edge_list) (name_id names t) k (name_id names s) =
       name_walk_sum edge_list t k s"
proof (induction k arbitrary: s)
  case 0
  then show ?case by (simp add: name_id_inj t)
next
  case (Suc k)
  have "walk_sum (built names edge_list) (name_id names t) (Suc k) (name_id names s) =
        (\<Sum>(a, b, w)\<leftarrow>filter (\<lambda>(a, b, w). a = s) edge_list.
            step_weight (built names edge_list) (name_id names s) (name_id names b)
              * walk_sum (built names edge_list) (name_id names t) k (name_id names b))"
    by (simp only: walk_sum.simps built_out_targets_sum [OF known Suc.prems])
  also have "\<dots> = (\<Sum>(a, b, w)\<leftarrow>filter (\<lambda>(a, b, w). a = s) edge_list.
                      retrieved_weight edge_list s b * name_walk_sum edge_list t k b)"
  proof (rule arg_cong [where f = sum_list], rule map_cong [OF refl])
    fix x assume "x \<in> set (filter (\<lambda>(a, b, w). a = s) edge_list)"
    then obtain b w where x: "x = (s, b, w)" "(s, b, w) \<in> set edge_list" by auto
    with known have b: "b \<in> set names" by auto
    show "(case x of (a, b, w) \<Rightarrow>
             step_weight (built names edge_list) (name_id names s) (name_id names b)
               * walk_sum (built names edge_list) (name_id names t) k (name_id names b)) =
          (case x of (a, b, w) \<Rightarrow> retrieved_weight edge_list s b * name_walk_sum edge_list t k b)"
      by (simp add: x built_step_weight [OF known Suc.prems b] Suc.IH [OF b])
  qed
  finally show ?case by simp
qed

lemma built_influence_sum:
  assumes known: "(\<lambda>(s, t, w). s) ` set edge_list \<union> (\<lambda>(s, t, w). t) ` set edge_list \<subseteq> set names"
    and "s \<in> set names" "t \<in> set names"
  shows "influence_sum (built names edge_list) (name_id names s) (name_id names t) max_depth =
           (\<Sum>k = 1..nat max_depth. name_walk_sum edge_list t k s)"
  unfolding influence_sum_def
  by (simp only: built_walk_sum [OF known assms(3) assms(2)])

lemma gene_effect_over_value:
  assumes dist: "distinct names"
    and known: "(\<lambda>(s, t, w). s) ` set edge_list \<union> (\<lambda>(s, t, w). t) ` set edge_list \<subseteq> set names"
    and src: "source_gene \<in> set names"
  shows "\<exists>new_levels.
     gene_effect_over names edge_list initial_levels source_gene modified_level max_depth
       = Inr new_levels
     \<and> map_of new_levels =
         (\<lambda>t. if t = source_gene then Some modified_level
              else if t \<in> set names
              then Some (dict_get initial_levels t 0
                         + (modified_level - dict_get initial_levels source_gene 0)
                           * (\<Sum>k = 1..nat max_depth. name_walk_sum edge_list t k source_gene))
              else map_of initial_levels t)"
proof -
  define G where "G = built names edge_list"
  define shock where "shock = modified_level - dict_get initial_levels source_gene 0"
  define val where "val t = dict_get initial_levels t 0
      + shock * influence_sum G (name_id names source_gene) (name_id names t) max_depth" for t
  let ?f = "target_round G initial_levels source_gene (name_id names source_gene) shock max_depth"
  have "\<exists>al'. fold ?f names (Inr (AList.update source_gene modified_level initial_levels)) = Inr al'
          \<and> map_of al' = (\<lambda>t. if t \<in> set names \<and> t \<noteq> source_gene then Some (val t)
                               else map_of (AList.update source_gene modified_level initial_levels) t)"
  proof (rule fold_rounds)
    show "?f t (Inr al) = Inr (AList.update t (val t) al)"
      if "t \<in> set names" "t \<noteq> source_gene" for t al
      unfolding G_def val_def by (rule target_round_built [OF known src that])
    show "?f source_gene (Inr al) = Inr al" for al
      by (rule target_round_source)
  qed
  then obtain al' where al':
    "fold ?f names (Inr (AList.update source_gene modified_level initial_levels)) = Inr al'"
    "map_of al' = (\<lambda>t. if t \<in> set names \<and> t \<noteq> source_gene then Some (val t)
                         else map_of (AList.update source_gene modified_level initial_levels) t)"
    by blast
  have "gene_effect_over names edge_list initial_levels source_gene modified_level max_depth = Inr al'"
  proof -
    have dl: "DictList names edge_list = Inr G"
      unfolding G_def by (rule DictList_known [OF dist known])
    have vf: "vs_find G source_gene = Inr (name_id names source_gene)"
      using src by (simp add: G_def vs_find_built)
    show ?thesis
      unfolding gene_effect_over_def
      by (simp add: dl vf Let_def shock_def [symmetric] al'(1))
  qed
  moreover have "val t = dict_get initial_levels t 0
       + (modified_level - dict_get initial_levels source_gene 0)
         * (\<Sum>k = 1..nat max_depth. name_walk_sum edge_list t k source_gene)"
    if "t \<in> set names" for t
    unfolding val_def shock_def G_def
    by (simp only: built_influence_sum [OF known src that])
  then have "map_of al' =
         (\<lambda>t. if t = source_gene then Some modified_level
              else if t \<in> set names
              then Some (dict_get initial_levels t 0
                         + (modified_level - dict_get initial_levels source_gene 0)
                           * (\<Sum>k = 1..nat max_depth. name_walk_sum edge_list t k source_gene))
              else map_of initial_levels t)"
    by (auto simp: al'(2) fun_eq_iff update_conv')
  ultimately show ?thesis by blast
qed

lemma gene_effect_over_unknown:
  assumes "distinct names"
    and "(\<lambda>(s, t, w). s) ` set edge_list \<union> (\<lambda>(s, t, w). t) ` set edge_list \<subseteq> set names"
    and "source_gene \<notin> set names"
  shows "gene_effect_over names edge_list initial_levels source_gene modified_level max_depth
           = Inl ValueError"
  using assms(3)
  by (simp add: gene_effect_over_def DictList_known [OF assms(1,2)] vs_find_built Let_def)

lemma iteration_order_irrelevant:
  assumes "distinct names" "set names = set (all_gene_names edge_list initial_levels)"
  shows "map_sum id map_of
           (gene_effect_over names edge_list initial_levels source_gene modified_level max_depth) =
         map_sum id map_of
           (compute_gene_effect edge_list initial_levels source_gene modified_level max_depth)"
proof -
  let ?names0 = "all_gene_names edge_list initial_levels"
  have known0: "(\<lambda>(s, t, w). s) ` set edge_list \<union> (\<lambda>(s, t, w). t) ` set edge_list \<subseteq> set ?names0"
    by (rule endpoints_known)
  with assms(2) have known: "(\<lambda>(s, t, w). s) ` set edge_list \<union> (\<lambda>(s, t, w). t) ` set edge_list \<subseteq> set names"
    by blast
  show ?thesis
  proof (cases "source_gene \<in> set names")
    case True
    with assms(2) have src0: "source_gene \<in> set ?names0" by blast
    from gene_effect_over_value [OF assms(1) known True]
    obtain al where al:
      "gene_effect_over names edge_list initial_levels source_gene modified_level max_depth = Inr al"
      "map_of al =
         (\<lambda>t. if t = source_gene then Some modified_level
              else if t \<in> set names
              then Some (dict_get initial_levels t 0
                         + (modified_level - dict_get initial_levels source_gene 0)
                           * (\<Sum>k = 1..nat max_depth. name_walk_sum edge_list t k source_gene))
              else map_of initial_levels t)"
      by blast
    from gene_effect_over_value [OF distinct_all_gene_names known0 src0]
    obtain al0 where al0:
      "gene_effect_over ?names0 edge_list initial_levels source_gene modified_level max_depth = Inr al0"
      "map_of al0 =
         (\<lambda>t. if t = source_gene then Some modified_level
              else if t \<in> set ?names0
              then Some (dict_get initial_levels t 0
                         + (modified_level - dict_get initial_levels source_gene 0)
                           * (\<Sum>k = 1..nat max_depth. name_walk_sum edge_list t k source_gene))
              else map_of initial_levels t)"
      by blast
    have "map_of al = map_of al0" by (simp only: al(2) al0(2) assms(2))
    with al(1) al0(1) show ?thesis by (simp add: compute_gene_effect_def)
  next
    case False
    with assms(2) have "source_gene \<notin> set ?names0" by blast
    from gene_effect_over_unknown [OF assms(1) known False]
      gene_effect_over_unknown [OF distinct_all_gene_names known0 this]
    show ?thesis by (simp add: compute_gene_effect_def)
  qed
qed

lemma iteration_order_example:
  "map_sum id map_of
     (gene_effect_over [''c'', ''a'', ''b''] [(''a'', ''b'', 2), (''b'', ''c'', 3)] [(''a'', 1)] ''a'' 3 2)
   = map_sum id map_of
     (compute_gene_effect [(''a'', ''b'', 2), (''b'', ''c'', 3)] [(''a'', 1)] ''a'' 3 2)"
proof -
  have "set [''c'', ''a'', ''b''] = set (all_gene_names [(''a'', ''b'', 2), (''b'', ''c'', 3)] [(''a'', 1)])"
    by (simp add: set_all_gene_names) blast
  then show ?thesis by (intro iteration_order_irrelevant) simp_all
qed

section \<open>The claims\<close>

text \<open>
  C10. \<^verbatim>\<open>get_total_influence\<close> is homogeneous in \<^verbatim>\<open>current_path_product\<close>: called
  with the product \<open>p\<close> it returns \<open>p\<close> times what it returns with the product 1, and it
  raises with \<open>p\<close> exactly when it raises with 1 (the same exception). This holds for every
  graph, every pair of vertex ids and all depths.
\<close>

theorem influence_homogeneous:
  "get_total_influence G current target p max_depth current_depth =
     (case get_total_influence G current target 1 max_depth current_depth of
        Inl e \<Rightarrow> Inl e
      | Inr v \<Rightarrow> Inr (p * v))"
  by (rule homogeneous_aux) (rule refl)

text \<open>
  C8. \<^verbatim>\<open>get_total_influence\<close> is total: the recursion ends by the depth bound alone
  (the termination proof of the function uses the measure \<open>max_depth + 1 - current_depth\<close>
  and nothing about the graph), and on a graph that keeps igraph's invariant, from a
  current vertex of the graph, it returns a number for every target, every product and
  all integer depths. When \<open>current_depth\<close> is above \<open>max_depth\<close> it returns 0.0 at once,
  whatever the other arguments: so with \<open>max_depth = 0\<close> and with a negative
  \<open>max_depth\<close> every query started at depth 1 returns 0.0.
\<close>

theorem influence_total:
  "(graph_ok G \<and> current < vcount G \<longrightarrow>
      (\<exists>r. get_total_influence G current target p max_depth current_depth = Inr r))
   \<and> (max_depth < current_depth \<longrightarrow>
        get_total_influence G current target p max_depth current_depth = Inr 0)
   \<and> get_total_influence G current target p 0 1 = Inr 0
   \<and> (max_depth < 0 \<longrightarrow> get_total_influence G current target p max_depth 1 = Inr 0)"
proof -
  have "\<exists>r. get_total_influence G current target p max_depth current_depth = Inr r"
    if "graph_ok G" "current < vcount G"
    using influence_value [OF that refl] by blast
  moreover have "get_total_influence G current target p max_depth current_depth = Inr 0"
    if "max_depth < current_depth"
    using that by (simp add: get_total_influence.simps)
  moreover have "get_total_influence G current target p 0 1 = Inr 0"
    by (simp add: get_total_influence.simps)
  moreover have "get_total_influence G current target p max_depth 1 = Inr 0"
    if "max_depth < 0"
    using that by (simp add: get_total_influence.simps)
  ultimately show ?thesis by blast
qed

theorem influence_total_witness:
  "graph_ok \<lparr>vs_names = [''A'', ''B'', ''C''], es = [(0, 1, 2), (1, 2, 1 / 2), (2, 1, 3)]\<rparr>
   \<and> (\<exists>r. get_total_influence \<lparr>vs_names = [''A'', ''B'', ''C''], es = [(0, 1, 2), (1, 2, 1 / 2), (2, 1, 3)]\<rparr> 0 1 (7 / 2) 40 (- 3) = Inr r)
   \<and> get_total_influence \<lparr>vs_names = [''A'', ''B'', ''C''], es = [(0, 1, 2), (1, 2, 1 / 2), (2, 1, 3)]\<rparr> 0 1 (7 / 2) (- 2) 1 = Inr 0"
  using influence_total [of "\<lparr>vs_names = [''A'', ''B'', ''C''], es = [(0, 1, 2), (1, 2, 1 / 2), (2, 1, 3)]\<rparr>" 0 1 "7 / 2" 40 "- 3"]
    influence_total [of "\<lparr>vs_names = [''A'', ''B'', ''C''], es = [(0, 1, 2), (1, 2, 1 / 2), (2, 1, 3)]\<rparr>" 0 1 "7 / 2" "- 2" 1]
  by (simp add: graph_ok_def vcount_def)

text \<open>
  C5. On the graph whose only edge goes from \<open>a\<close> to another vertex \<open>b\<close> with weight
  \<open>w\<close>, the influence of \<open>a\<close> on \<open>b\<close> (product 1.0, first depth 1) is exactly \<open>w\<close> for
  every \<open>max_depth \<ge> 1\<close>, and 0.0 for \<open>max_depth = 0\<close>. The two vertices are distinct: a
  single edge from a vertex to itself is a cycle, and the walks around it add up.
\<close>

theorem isolated_edge_exact:
  assumes "a < length names" "b < length names" "a \<noteq> b"
  shows "(1 \<le> max_depth \<longrightarrow>
            get_total_influence \<lparr>vs_names = names, es = [(a, b, w)]\<rparr> a b 1 max_depth 1 = Inr w)
       \<and> get_total_influence \<lparr>vs_names = names, es = [(a, b, w)]\<rparr> a b 1 0 1 = Inr 0"
proof -
  let ?G = "\<lparr>vs_names = names, es = [(a, b, w)]\<rparr>"
  have ok: "graph_ok ?G" using assms by (simp add: graph_ok_def vcount_def)
  have a: "a < vcount ?G" using assms by (simp add: vcount_def)
  have "get_total_influence ?G a b 1 max_depth 1 = Inr w" if "1 \<le> max_depth"
  proof -
    from that obtain N where N: "nat (max_depth + 1 - 1) = Suc N"
      by (cases "nat max_depth") auto
    show ?thesis
      by (simp only: influence_value [OF ok a refl] N single_edge_sum [OF assms(3)] mult_1)
  qed
  moreover have "get_total_influence ?G a b 1 0 1 = Inr 0"
    by (simp add: get_total_influence.simps)
  ultimately show ?thesis by blast
qed

theorem isolated_edge_exact_witness:
  "get_total_influence \<lparr>vs_names = [''A'', ''B''], es = [(0, 1, 7 / 10)]\<rparr> 0 1 1 3 1
     = Inr (7 / 10)
   \<and> get_total_influence \<lparr>vs_names = [''A'', ''B''], es = [(0, 1, 7 / 10)]\<rparr> 0 1 1 0 1
     = Inr 0"
  using isolated_edge_exact [of 0 "[''A'', ''B'']" 1 3 "7 / 10"] by simp

text \<open>
  C6. When all edge weights are non-negative, a larger \<open>max_depth\<close> never gives a smaller
  influence: for depths \<open>d1 \<le> d2\<close> the value for \<open>d1\<close> is at most the value for \<open>d2\<close>
  (product 1.0, first depth 1), on every graph, cyclic or not, and for every pair of
  vertices.
\<close>

theorem depth_monotone:
  assumes "graph_ok G" "weights_nonneg G" "a < vcount G" "d1 \<le> d2"
  shows "\<exists>v1 v2. get_total_influence G a b 1 d1 1 = Inr v1
           \<and> get_total_influence G a b 1 d2 1 = Inr v2 \<and> v1 \<le> v2"
proof -
  have "nat (d1 + 1 - 1) \<le> nat (d2 + 1 - 1)" using assms(4) by simp
  from walk_sums_mono [OF assms(2) this, of b a] show ?thesis
    by (simp add: influence_value [OF assms(1) assms(3) refl])
qed

theorem depth_monotone_witness:
  "graph_ok \<lparr>vs_names = [''A'', ''B'', ''C''], es = [(0, 1, 2), (1, 2, 1 / 2), (2, 1, 3)]\<rparr>
   \<and> weights_nonneg \<lparr>vs_names = [''A'', ''B'', ''C''], es = [(0, 1, 2), (1, 2, 1 / 2), (2, 1, 3)]\<rparr>
   \<and> (\<exists>v1 v2. get_total_influence \<lparr>vs_names = [''A'', ''B'', ''C''], es = [(0, 1, 2), (1, 2, 1 / 2), (2, 1, 3)]\<rparr> 0 1 1 2 1 = Inr v1
        \<and> get_total_influence \<lparr>vs_names = [''A'', ''B'', ''C''], es = [(0, 1, 2), (1, 2, 1 / 2), (2, 1, 3)]\<rparr> 0 1 1 5 1 = Inr v2
        \<and> v1 \<le> v2)"
  using depth_monotone [of "\<lparr>vs_names = [''A'', ''B'', ''C''], es = [(0, 1, 2), (1, 2, 1 / 2), (2, 1, 3)]\<rparr>" 0 2 5 1]
  by (simp add: graph_ok_def weights_nonneg_def vcount_def)

text \<open>
  C1. On a graph with at most one edge for an ordered pair of vertices (the graphs that
  have a weighted adjacency matrix \<open>W\<close>), for every source and target and every
  \<open>max_depth = D\<close>, the influence computed with product 1.0 from depth 1 is the
  \<open>(source, target)\<close> entry of \<open>W^1 + ... + W^D\<close>, and that entry is the sum, over all
  directed walks with 1 to \<open>D\<close> edges from the source to the target, of the product of
  the edge weights along the walk. For \<open>D < 1\<close> both sides are 0.
\<close>

theorem influence_is_walk_sum:
  assumes "graph_ok G" "no_parallel_edges G" "source < vcount G"
  shows "get_total_influence G source target 1 D 1 = Inr (matrix_power_sum G (nat D) source target)
       \<and> matrix_power_sum G (nat D) source target = walk_total G (nat D) source target"
proof -
  have "get_total_influence G source target 1 D 1 = Inr (\<Sum>k = 1..nat D. walk_sum G target k source)"
    using influence_value [OF assms(1) assms(3) refl, of target 1 D 1] by simp
  moreover have "matrix_power_sum G (nat D) source target = (\<Sum>k = 1..nat D. walk_sum G target k source)"
    by (simp only: matrix_power_sum_def sum_list_from_one walk_sum_mat_pow [OF assms(1) assms(2)])
  moreover have "walk_total G (nat D) source target = matrix_power_sum G (nat D) source target"
    by (simp only: walk_total_def matrix_power_sum_def walks_mat_pow)
  ultimately show ?thesis by simp
qed

theorem influence_is_walk_sum_witness:
  "graph_ok \<lparr>vs_names = [''A'', ''B'', ''C''], es = [(0, 1, 2), (1, 2, 1 / 2), (2, 1, 3)]\<rparr>
   \<and> no_parallel_edges \<lparr>vs_names = [''A'', ''B'', ''C''], es = [(0, 1, 2), (1, 2, 1 / 2), (2, 1, 3)]\<rparr>
   \<and> get_total_influence
        \<lparr>vs_names = [''A'', ''B'', ''C''], es = [(0, 1, 2), (1, 2, 1 / 2), (2, 1, 3)]\<rparr> 0 1 1 5 1
       = Inr (19 / 2)
   \<and> matrix_power_sum
        \<lparr>vs_names = [''A'', ''B'', ''C''], es = [(0, 1, 2), (1, 2, 1 / 2), (2, 1, 3)]\<rparr> 5 0 1 = 19 / 2
   \<and> walk_total
        \<lparr>vs_names = [''A'', ''B'', ''C''], es = [(0, 1, 2), (1, 2, 1 / 2), (2, 1, 3)]\<rparr> 5 0 1 = 19 / 2"
proof -
  let ?G = "\<lparr>vs_names = [''A'', ''B'', ''C''], es = [(0, 1, 2), (1, 2, 1 / 2), (2, 1, 3)]\<rparr>"
  have ok: "graph_ok ?G" by (simp add: graph_ok_def vcount_def)
  have simple: "no_parallel_edges ?G" by (simp add: no_parallel_edges_def)
  have src: "0 < vcount ?G" by (simp add: vcount_def)
  have m: "matrix_power_sum ?G (nat 5) 0 1 = 19 / 2" by code_simp
  from influence_is_walk_sum [OF ok simple src, of 1 5] ok simple m show ?thesis by simp
qed

text \<open>
  C7, as amended. On a graph with at most one edge for an ordered pair of vertices, let
  all edge weights be non-negative, and let a cycle through a vertex \<open>c\<close> have a product
  of weights of at least 1, with a walk of positive weight from the source to \<open>c\<close> and
  a walk of positive weight from \<open>c\<close> to the target. Then the
  influence of the source on the target is unbounded in \<open>max_depth\<close>: it exceeds every
  bound at some depth, and for every depth there is a larger depth with a strictly
  larger value.
\<close>

theorem cycle_gain_unbounded:
  assumes ok: "graph_ok G" and simple: "no_parallel_edges G" and nn: "weights_nonneg G"
    and pre: "is_walk G pre" "hd pre = source" "last pre = c" "0 < walk_weight G pre"
    and cyc: "is_walk G cyc" "hd cyc = c" "last cyc = c" "2 \<le> length cyc" "1 \<le> walk_weight G cyc"
    and post: "is_walk G post" "hd post = c" "last post = target" "0 < walk_weight G post"
  shows "(\<forall>B. \<exists>d v. get_total_influence G source target 1 d 1 = Inr v \<and> B < v)
       \<and> (\<forall>d. \<exists>d' v v'. d < d' \<and> get_total_influence G source target 1 d 1 = Inr v
              \<and> get_total_influence G source target 1 d' 1 = Inr v' \<and> v < v')"
proof -
  define S where "S N = (\<Sum>k = 1..N. walk_sum G target k source)" for N
  have src: "source < vcount G" using is_walk_hd [OF ok pre(1)] pre(2) by simp
  have val: "get_total_influence G source target 1 d 1 = Inr (S (nat d))" for d
    using influence_value [OF ok src refl, of target 1 d 1] by (simp add: S_def)
  define a L b where "a = length pre - 1" and "L = length cyc - 1" and "b = length post - 1"
  define e where "e = walk_weight G pre * walk_weight G post"
  have e: "0 < e" using pre(4) post(4) by (simp add: e_def)
  have L: "0 < L" using cyc(4) by (simp add: L_def)
  have p1: "walk_weight G pre \<le> walk_sum G c a source"
    using walk_weight_le_walk_sum [OF nn simple pre(1)] pre(2,3) by (simp add: a_def)
  have p2: "1 \<le> walk_sum G c L c"
    using walk_weight_le_walk_sum [OF nn simple cyc(1)] cyc(2,3,5) by (simp add: L_def)
  have p3: "walk_weight G post \<le> walk_sum G target b c"
    using walk_weight_le_walk_sum [OF nn simple post(1)] post(2,3) by (simp add: b_def)
  have low: "e \<le> walk_sum G target (a + j * L + b) source" for j
    unfolding e_def by (rule through_cycle [OF nn p1 pre(4) p2 p3 post(4)])
  have grow: "of_nat m * e \<le> S (a + m * L + b)" for m
    unfolding S_def by (rule sums_grow [OF nn L low])
  have unbounded: "\<exists>d. B < S (nat d)" for B
  proof -
    from e obtain m :: nat where "B < of_nat m * e"
      using ex_less_of_nat_mult by blast
    with grow [of m] have "B < S (nat (int (a + m * L + b)))" by (simp only: nat_int)
    then show ?thesis by blast
  qed
  have mono: "S (nat d) \<le> S (nat d')" if "d \<le> d'" for d d' :: int
    unfolding S_def using that by (intro walk_sums_mono [OF nn]) simp
  have first: "\<exists>d v. get_total_influence G source target 1 d 1 = Inr v \<and> B < v" for B
    using unbounded [of B] val by blast
  have second: "\<exists>d' v v'. d < d' \<and> get_total_influence G source target 1 d 1 = Inr v
              \<and> get_total_influence G source target 1 d' 1 = Inr v' \<and> v < v'" for d
  proof -
    from unbounded [of "S (nat d)"] obtain d' where d': "S (nat d) < S (nat d')" by blast
    have "d < d'"
    proof (rule ccontr)
      assume "\<not> d < d'"
      then have "S (nat d') \<le> S (nat d)" by (intro mono) simp
      with d' show False by simp
    qed
    with d' val show ?thesis by blast
  qed
  from first second show ?thesis by blast
qed

theorem cycle_gain_unbounded_witness:
  "graph_ok \<lparr>vs_names = [''A'', ''B'', ''C''], es = [(0, 1, 2), (1, 2, 1 / 2), (2, 1, 3)]\<rparr>
   \<and> no_parallel_edges \<lparr>vs_names = [''A'', ''B'', ''C''], es = [(0, 1, 2), (1, 2, 1 / 2), (2, 1, 3)]\<rparr>
   \<and> weights_nonneg \<lparr>vs_names = [''A'', ''B'', ''C''], es = [(0, 1, 2), (1, 2, 1 / 2), (2, 1, 3)]\<rparr>
   \<and> is_walk \<lparr>vs_names = [''A'', ''B'', ''C''], es = [(0, 1, 2), (1, 2, 1 / 2), (2, 1, 3)]\<rparr> [0, 1]
   \<and> is_walk \<lparr>vs_names = [''A'', ''B'', ''C''], es = [(0, 1, 2), (1, 2, 1 / 2), (2, 1, 3)]\<rparr> [1, 2, 1]
   \<and> walk_weight \<lparr>vs_names = [''A'', ''B'', ''C''], es = [(0, 1, 2), (1, 2, 1 / 2), (2, 1, 3)]\<rparr> [1, 2, 1] = 3 / 2
   \<and> is_walk \<lparr>vs_names = [''A'', ''B'', ''C''], es = [(0, 1, 2), (1, 2, 1 / 2), (2, 1, 3)]\<rparr> [1, 2]
   \<and> (\<forall>B. \<exists>d v. get_total_influence
          \<lparr>vs_names = [''A'', ''B'', ''C''], es = [(0, 1, 2), (1, 2, 1 / 2), (2, 1, 3)]\<rparr> 0 2 1 d 1 = Inr v
          \<and> B < v)"
proof -
  let ?G = "\<lparr>vs_names = [''A'', ''B'', ''C''], es = [(0, 1, 2), (1, 2, 1 / 2), (2, 1, 3)]\<rparr>"
  have ok: "graph_ok ?G" by (simp add: graph_ok_def vcount_def)
  have simple: "no_parallel_edges ?G" by (simp add: no_parallel_edges_def)
  have nn: "weights_nonneg ?G" by (simp add: weights_nonneg_def)
  have pre: "is_walk ?G [0, 1]" "hd [0, 1 :: nat] = 0" "last [0, 1 :: nat] = 1" "0 < walk_weight ?G [0, 1]"
    by (simp_all add: has_edge_def vcount_def adjacency_def)
  have cyc: "is_walk ?G [1, 2, 1]" "hd [1, 2, 1 :: nat] = 1" "last [1, 2, 1 :: nat] = 1"
    "2 \<le> length [1, 2, 1 :: nat]" "1 \<le> walk_weight ?G [1, 2, 1]"
    by (simp_all add: has_edge_def vcount_def adjacency_def)
  have cw: "walk_weight ?G [1, 2, 1] = 3 / 2"
    by (simp add: adjacency_def)
  have post: "is_walk ?G [1, 2]" "hd [1, 2 :: nat] = 1" "last [1, 2 :: nat] = 2" "0 < walk_weight ?G [1, 2]"
    by (simp_all add: has_edge_def vcount_def adjacency_def)
  from cycle_gain_unbounded [OF ok simple nn pre cyc post] ok simple nn pre(1) cyc(1) cw post(1)
  show ?thesis by blast
qed

text \<open>
  C7 as stated fails when weights may be negative. Here (a graph without parallel edges)
  the cycle S, A, S has the product 1 and lies on the walk S, A, S, T from the source S
  to the target T, but the last edge has weight -1: every walk from S to T has the
  product -1, and the influence is never positive, whatever the depth.
\<close>

theorem cycle_gain_counterexample:
  "graph_ok \<lparr>vs_names = [''S'', ''A'', ''T''], es = [(0, 1, 1), (1, 0, 1), (0, 2, - 1)]\<rparr>
   \<and> no_parallel_edges \<lparr>vs_names = [''S'', ''A'', ''T''], es = [(0, 1, 1), (1, 0, 1), (0, 2, - 1)]\<rparr>
   \<and> is_walk \<lparr>vs_names = [''S'', ''A'', ''T''], es = [(0, 1, 1), (1, 0, 1), (0, 2, - 1)]\<rparr> [0, 1, 0]
   \<and> walk_weight \<lparr>vs_names = [''S'', ''A'', ''T''], es = [(0, 1, 1), (1, 0, 1), (0, 2, - 1)]\<rparr> [0, 1, 0] = 1
   \<and> is_walk \<lparr>vs_names = [''S'', ''A'', ''T''], es = [(0, 1, 1), (1, 0, 1), (0, 2, - 1)]\<rparr> [0, 1, 0, 2]
   \<and> \<not> (\<exists>d v. get_total_influence
            \<lparr>vs_names = [''S'', ''A'', ''T''], es = [(0, 1, 1), (1, 0, 1), (0, 2, - 1)]\<rparr> 0 2 1 d 1 = Inr v
          \<and> 0 < v)"
proof -
  let ?G = "\<lparr>vs_names = [''S'', ''A'', ''T''], es = [(0, 1, 1), (1, 0, 1), (0, 2, - 1)]\<rparr>"
  have ok: "graph_ok ?G" by (simp add: graph_ok_def vcount_def)
  have src: "0 < vcount ?G" by (simp add: vcount_def)
  have simple: "no_parallel_edges ?G" by (simp add: no_parallel_edges_def)
  have walks: "is_walk ?G [0, 1, 0]" "walk_weight ?G [0, 1, 0] = 1" "is_walk ?G [0, 1, 0, 2]"
    by (simp_all add: has_edge_def vcount_def adjacency_def)
  have nonpos: "(\<Sum>k = 1..N. walk_sum ?G 2 k 0) \<le> 0" for N
    by (intro sum_nonpos conjunct1 [OF two_cycle_signs])
  have val: "get_total_influence ?G 0 2 1 d 1 = Inr (\<Sum>k = 1..nat d. walk_sum ?G 2 k 0)" for d
    using influence_value [OF ok src refl, of 2 1 d 1]
    by (simp only: mult_1 add_diff_cancel_right')
  have "\<not> (\<exists>d v. get_total_influence ?G 0 2 1 d 1 = Inr v \<and> 0 < v)"
  proof
    assume "\<exists>d v. get_total_influence ?G 0 2 1 d 1 = Inr v \<and> 0 < v"
    then obtain d v where dv: "get_total_influence ?G 0 2 1 d 1 = Inr v" "0 < v" by blast
    from dv(1) have "v = (\<Sum>k = 1..nat d. walk_sum ?G 2 k 0)"
      by (simp only: val sum.inject)
    with nonpos [of "nat d"] dv(2) show False by linarith
  qed
  with ok simple walks show ?thesis by blast
qed

text \<open>
  C2. The example of the script: with the nine edges of \<open>EDGES\<close>, all eight baseline
  levels 1.0, source gene "1", modified level 1.5 and \<open>max_depth = 2\<close>, the function
  returns the dictionary "1" -> 1.5, "2" -> 1.0, "3" -> 1.3, "4" -> 1.5, "5" -> 1.3,
  "6" -> 1.65, "7" -> 1.28, "8" -> 1.15.
\<close>

theorem example_network_levels:
  "compute_gene_effect EDGES INITIAL_LEVELS ''1'' 1.5 2 =
     Inr [(''1'', 1.5), (''2'', 1.0), (''3'', 1.3), (''4'', 1.5),
          (''5'', 1.3), (''6'', 1.65), (''7'', 1.28), (''8'', 1.15)]"
  by code_simp

text \<open>
  C3. For a fixed edge list, dictionary of baseline levels, source gene and depth, and
  for every target gene of the loop (a known name other than the source), there is one
  influence factor, computed without the modified level, such that for every modified
  level the function returns and the new level of the target is
  \<open>baseline(target) + (modified_level - baseline(source)) * influence\<close>, where a baseline
  absent from the dictionary counts as 0.0.
\<close>

theorem shock_linearity:
  assumes "source_gene \<in> set (all_gene_names edge_list initial_levels)"
    and "target_gene \<in> set (all_gene_names edge_list initial_levels)"
    and "target_gene \<noteq> source_gene"
  shows "\<exists>influence.
           influence_factor edge_list initial_levels source_gene target_gene max_depth = Inr influence
         \<and> (\<forall>modified_level. \<exists>new_levels.
               compute_gene_effect edge_list initial_levels source_gene modified_level max_depth
                 = Inr new_levels
             \<and> map_of new_levels target_gene =
                 Some (dict_get initial_levels target_gene 0
                       + (modified_level - dict_get initial_levels source_gene 0) * influence))"
proof -
  have "\<exists>new_levels.
      compute_gene_effect edge_list initial_levels source_gene modified_level max_depth = Inr new_levels
    \<and> map_of new_levels target_gene =
        Some (dict_get initial_levels target_gene 0
              + (modified_level - dict_get initial_levels source_gene 0)
                * influence_sum (built (all_gene_names edge_list initial_levels) edge_list)
                    (name_id (all_gene_names edge_list initial_levels) source_gene)
                    (name_id (all_gene_names edge_list initial_levels) target_gene) max_depth)"
    for modified_level
    using gene_effect_value [OF assms(1), of modified_level max_depth] assms(2,3) by auto
  with influence_factor_value [OF assms(1,2), of max_depth] show ?thesis by blast
qed

theorem shock_linearity_witness:
  "influence_factor EDGES INITIAL_LEVELS ''1'' ''6'' 2 = Inr 1.3
   \<and> (\<forall>modified_level. \<exists>new_levels.
         compute_gene_effect EDGES INITIAL_LEVELS ''1'' modified_level 2 = Inr new_levels
       \<and> map_of new_levels ''6'' = Some (1 + (modified_level - 1) * 1.3))"
proof -
  have names: "''1'' \<in> set (all_gene_names EDGES INITIAL_LEVELS)"
    "''6'' \<in> set (all_gene_names EDGES INITIAL_LEVELS)"
    by (simp_all add: set_all_gene_names INITIAL_LEVELS_def)
  have v: "influence_factor EDGES INITIAL_LEVELS ''1'' ''6'' 2 = Inr 1.3"
    by code_simp
  have b: "dict_get INITIAL_LEVELS ''6'' 0 = 1" "dict_get INITIAL_LEVELS ''1'' 0 = 1"
    by (simp_all add: dict_get_def INITIAL_LEVELS_def)
  from shock_linearity [of "''1''" EDGES INITIAL_LEVELS "''6''" 2] obtain influence where
    i: "influence_factor EDGES INITIAL_LEVELS ''1'' ''6'' 2 = Inr influence"
    and l: "\<forall>modified_level. \<exists>new_levels.
         compute_gene_effect EDGES INITIAL_LEVELS ''1'' modified_level 2 = Inr new_levels
       \<and> map_of new_levels ''6'' =
           Some (dict_get INITIAL_LEVELS ''6'' 0
                 + (modified_level - dict_get INITIAL_LEVELS ''1'' 0) * influence)"
    using names by auto
  from i v have "influence = 1.3" by (simp only: sum.inject)
  with l v show ?thesis unfolding b by blast
qed

text \<open>
  C9. When the source gene is a known name (so that the call returns), the returned
  dictionary has an entry for exactly the names of \<open>initial_levels\<close> and the names that
  occur as source or target of an edge; a name known only from the edges gets the level
  \<open>0.0 + shock * influence\<close>.
\<close>

theorem result_covers_all_names:
  assumes "source_gene \<in> set (all_gene_names edge_list initial_levels)"
  shows "\<exists>new_levels.
      compute_gene_effect edge_list initial_levels source_gene modified_level max_depth = Inr new_levels
    \<and> dom (map_of new_levels) =
        fst ` set initial_levels \<union> (\<lambda>(s, t, w). s) ` set edge_list
          \<union> (\<lambda>(s, t, w). t) ` set edge_list
    \<and> (\<forall>t \<in> set (all_gene_names edge_list initial_levels).
          t \<notin> fst ` set initial_levels \<and> t \<noteq> source_gene \<longrightarrow>
          (\<exists>influence.
              influence_factor edge_list initial_levels source_gene t max_depth = Inr influence
            \<and> map_of new_levels t =
                Some (0 + (modified_level - dict_get initial_levels source_gene 0) * influence)))"
proof -
  from gene_effect_value [OF assms, of modified_level max_depth] obtain new_levels where
    r: "compute_gene_effect edge_list initial_levels source_gene modified_level max_depth = Inr new_levels"
    and m: "map_of new_levels =
         (\<lambda>t. if t = source_gene then Some modified_level
              else if t \<in> set (all_gene_names edge_list initial_levels)
              then Some (dict_get initial_levels t 0
                         + (modified_level - dict_get initial_levels source_gene 0)
                           * influence_sum (built (all_gene_names edge_list initial_levels) edge_list)
                               (name_id (all_gene_names edge_list initial_levels) source_gene)
                               (name_id (all_gene_names edge_list initial_levels) t) max_depth)
              else None)"
    by blast
  have "dom (map_of new_levels) = set (all_gene_names edge_list initial_levels)"
    using assms by (auto simp: m dom_def)
  then have d: "dom (map_of new_levels) =
        fst ` set initial_levels \<union> (\<lambda>(s, t, w). s) ` set edge_list
          \<union> (\<lambda>(s, t, w). t) ` set edge_list"
    by (simp only: set_all_gene_names)
  have e: "\<exists>influence.
              influence_factor edge_list initial_levels source_gene t max_depth = Inr influence
            \<and> map_of new_levels t =
                Some (0 + (modified_level - dict_get initial_levels source_gene 0) * influence)"
    if t: "t \<in> set (all_gene_names edge_list initial_levels)"
      "t \<notin> fst ` set initial_levels" "t \<noteq> source_gene" for t
  proof -
    from t(2) have "map_of initial_levels t = None" by (simp add: map_of_eq_None_iff)
    then have "dict_get initial_levels t 0 = 0" by (simp add: dict_get_def)
    with influence_factor_value [OF assms t(1), of max_depth] t show ?thesis
      by (simp add: m)
  qed
  from r d e show ?thesis by blast
qed

theorem result_covers_all_names_witness:
  "compute_gene_effect [(''a'', ''b'', 2), (''b'', ''c'', 3)] [(''a'', 1)] ''a'' 3 2
     = Inr [(''a'', 3), (''b'', 4), (''c'', 12)]
   \<and> dom (map_of [(''a'', 3 :: real), (''b'', 4), (''c'', 12)]) =
       fst ` set [(''a'', 1 :: real)] \<union> (\<lambda>(s, t, w). s) ` set [(''a'', ''b'', 2 :: real), (''b'', ''c'', 3)]
         \<union> (\<lambda>(s, t, w). t) ` set [(''a'', ''b'', 2 :: real), (''b'', ''c'', 3)]"
proof -
  have names: "all_gene_names [(''a'', ''b'', 2), (''b'', ''c'', 3)] [(''a'', 1)] = [''a'', ''b'', ''c'']"
    by code_simp
  have v: "compute_gene_effect [(''a'', ''b'', 2), (''b'', ''c'', 3)] [(''a'', 1)] ''a'' 3 2
     = Inr [(''a'', 3), (''b'', 4), (''c'', 12)]"
    by code_simp
  from result_covers_all_names [of "''a''" "[(''a'', ''b'', 2), (''b'', ''c'', 3)]" "[(''a'', 1)]" 3 2]
  have "dom (map_of [(''a'', 3 :: real), (''b'', 4), (''c'', 12)]) =
       fst ` set [(''a'', 1 :: real)] \<union> (\<lambda>(s, t, w). s) ` set [(''a'', ''b'', 2 :: real), (''b'', ''c'', 3)]
         \<union> (\<lambda>(s, t, w). t) ` set [(''a'', ''b'', 2 :: real), (''b'', ''c'', 3)]"
    unfolding names v by auto
  with v show ?thesis by blast
qed

text \<open>
  C4, as amended. The call returns normally exactly when the source gene is a key of
  \<open>initial_levels\<close> or an endpoint of an edge, whatever the names are; then no target
  fails to resolve, and every target gets its level. A source gene missing from
  \<open>initial_levels\<close> has the baseline 0.0 in the shock. When the source gene is no known
  name, the lookup of its vertex on line 103 raises \<^verbatim>\<open>ValueError\<close>, outside every
  \<^verbatim>\<open>try\<close>, and the call returns nothing.
\<close>

theorem returns_iff_source_known:
  "(source_gene \<in> set (all_gene_names edge_list initial_levels) \<longrightarrow>
      (\<exists>new_levels.
          compute_gene_effect edge_list initial_levels source_gene modified_level max_depth
            = Inr new_levels
        \<and> map_of new_levels source_gene = Some modified_level
        \<and> (\<forall>t \<in> set (all_gene_names edge_list initial_levels). t \<noteq> source_gene \<longrightarrow>
              (\<exists>influence.
                  influence_factor edge_list initial_levels source_gene t max_depth = Inr influence
                \<and> map_of new_levels t =
                    Some (dict_get initial_levels t 0
                          + (modified_level - dict_get initial_levels source_gene 0) * influence)))))
   \<and> (source_gene \<notin> fst ` set initial_levels \<longrightarrow> dict_get initial_levels source_gene 0 = 0)
   \<and> (source_gene \<notin> set (all_gene_names edge_list initial_levels) \<longrightarrow>
        compute_gene_effect edge_list initial_levels source_gene modified_level max_depth
          = Inl ValueError)"
proof -
  have a: "\<exists>new_levels.
          compute_gene_effect edge_list initial_levels source_gene modified_level max_depth
            = Inr new_levels
        \<and> map_of new_levels source_gene = Some modified_level
        \<and> (\<forall>t \<in> set (all_gene_names edge_list initial_levels). t \<noteq> source_gene \<longrightarrow>
              (\<exists>influence.
                  influence_factor edge_list initial_levels source_gene t max_depth = Inr influence
                \<and> map_of new_levels t =
                    Some (dict_get initial_levels t 0
                          + (modified_level - dict_get initial_levels source_gene 0) * influence)))"
    if src: "source_gene \<in> set (all_gene_names edge_list initial_levels)"
  proof -
    from gene_effect_value [OF src, of modified_level max_depth] obtain new_levels where
      r: "compute_gene_effect edge_list initial_levels source_gene modified_level max_depth = Inr new_levels"
      and m: "map_of new_levels =
         (\<lambda>t. if t = source_gene then Some modified_level
              else if t \<in> set (all_gene_names edge_list initial_levels)
              then Some (dict_get initial_levels t 0
                         + (modified_level - dict_get initial_levels source_gene 0)
                           * influence_sum (built (all_gene_names edge_list initial_levels) edge_list)
                               (name_id (all_gene_names edge_list initial_levels) source_gene)
                               (name_id (all_gene_names edge_list initial_levels) t) max_depth)
              else None)"
      by blast
    have "map_of new_levels source_gene = Some modified_level" by (simp add: m)
    moreover have "\<exists>influence.
                  influence_factor edge_list initial_levels source_gene t max_depth = Inr influence
                \<and> map_of new_levels t =
                    Some (dict_get initial_levels t 0
                          + (modified_level - dict_get initial_levels source_gene 0) * influence)"
      if "t \<in> set (all_gene_names edge_list initial_levels)" "t \<noteq> source_gene" for t
      using influence_factor_value [OF src that(1), of max_depth] that by (simp add: m)
    ultimately show ?thesis using r by blast
  qed
  have b: "dict_get initial_levels source_gene 0 = 0" if "source_gene \<notin> fst ` set initial_levels"
  proof -
    from that have "map_of initial_levels source_gene = None" by (simp add: map_of_eq_None_iff)
    then show ?thesis by (simp add: dict_get_def)
  qed
  from a b gene_effect_unknown_source [of source_gene edge_list initial_levels modified_level max_depth]
  show ?thesis by blast
qed

theorem returns_iff_source_known_witness:
  "compute_gene_effect [(''a'', ''b'', 2)] [(''b'', 5)] ''a'' 3 1 = Inr [(''b'', 11), (''a'', 3)]
   \<and> dict_get [(''b'', 5)] ''a'' 0 = 0
   \<and> compute_gene_effect [(''a'', ''b'', 2)] [(''b'', 5)] ''z'' 3 1 = Inl ValueError"
proof -
  have names: "all_gene_names [(''a'', ''b'', 2)] [(''b'', 5)] = [''b'', ''a'']"
    by code_simp
  have v: "compute_gene_effect [(''a'', ''b'', 2)] [(''b'', 5)] ''a'' 3 1 = Inr [(''b'', 11), (''a'', 3)]"
    by code_simp
  from returns_iff_source_known [of "''a''" "[(''a'', ''b'', 2)]" "[(''b'', 5)]" 3 1]
  have "dict_get [(''b'', 5)] ''a'' 0 = 0" by simp
  moreover from returns_iff_source_known [of "''z''" "[(''a'', ''b'', 2)]" "[(''b'', 5)]" 3 1]
  have "compute_gene_effect [(''a'', ''b'', 2)] [(''b'', 5)] ''z'' 3 1 = Inl ValueError"
    by (simp add: names)
  ultimately show ?thesis using v by blast
qed

text \<open>
  C4 as stated fails: a source gene that appears neither in \<open>initial_levels\<close> nor in the
  edge list makes the call raise.
\<close>

theorem unknown_source_counterexample:
  "compute_gene_effect [(''a'', ''b'', 2)] [(''a'', 1), (''b'', 1)] ''z'' 3 5 = Inl ValueError"
  by code_simp

end
